theory Spec2Isabelle
  imports
    Complex_Main
    "HOL-Library.Char_ord"
    "HOL-Library.List_Lexorder"
    "HOL-Library.Product_Lexorder"
    "HOL-Library.Multiset"
    "HOL-Library.Sublist"
begin

section \<open>Python values\<close>

text \<open>
  A Python \<open>str\<close> is modelled as a \<open>string\<close> whose characters stand for the code points
  below 256. With \<open>Char_ord\<close> and \<open>List_Lexorder\<close> the order on \<open>string\<close> is the
  lexicographic order by code point, which is how Python compares \<open>str\<close> values; with
  \<open>Product_Lexorder\<close> tuples are compared component by component from the left, as
  Python compares tuples.

  A value of type \<open>Any\<close> is a JSON value. A \<open>dict\<close> is an association list in insertion
  order; equality of two models is therefore finer than Python's \<open>==\<close> on dicts, and every
  equation proved below implies the Python one. A finite \<open>float\<close> is the rational it
  denotes.
\<close>

datatype json =
    JNull
  | JBool bool
  | JInt int
  | JFloat rat
  | JStr string
  | JList "json list"
  | JDict "(string \<times> json) list"

datatype error =
    ValidationError string
  | ValueError string
  | IndexError
  | TypeError
  | GraphConfigMigrationError string string string

section \<open>The schema: \<open>app/schemas/graph_config.py\<close>\<close>

datatype StateFieldType = STRING | INT | FLOAT | BOOL | LIST | DICT | ANY

datatype StateReducerType = REPLACE | ADD_MESSAGES

datatype BuiltinEdgeCondition = HAS_TOOL_CALLS | NO_TOOL_CALLS

datatype PredicateOperator = EQUALS | NOT_EQUALS | TRUTHY | FALSY

text \<open>The \<open>.value\<close> of the two \<open>StrEnum\<close>s that the canonicalizer reads.\<close>

fun BuiltinEdgeCondition_value :: "BuiltinEdgeCondition \<Rightarrow> string" where
  "BuiltinEdgeCondition_value HAS_TOOL_CALLS = ''has_tool_calls''"
| "BuiltinEdgeCondition_value NO_TOOL_CALLS = ''no_tool_calls''"

fun PredicateOperator_value :: "PredicateOperator \<Rightarrow> string" where
  "PredicateOperator_value EQUALS = ''eq''"
| "PredicateOperator_value NOT_EQUALS = ''neq''"
| "PredicateOperator_value TRUTHY = ''truthy''"
| "PredicateOperator_value FALSY = ''falsy''"

record StateFieldSchema =
  field_type :: StateFieldType
  field_description :: "string option"
  field_default :: json

record GraphStateConfig =
  state_schema :: "(string \<times> StateFieldSchema) list"
  reducers :: "(string \<times> StateReducerType) list"

record GraphExecutionLimits =
  max_time_s :: int
  max_steps :: int
  max_concurrency :: int

record ModelDependencyRef =
  model_key :: string
  model_provider :: "string option"
  model_version :: "string option"

record PromptDependencyRef =
  prompt_key :: string
  prompt_version :: "string option"

record ComponentDependencyRef =
  component_key :: string
  component_version :: string

record GraphDeps =
  models :: "ModelDependencyRef list"
  tools :: "string list"
  prompts :: "PromptDependencyRef list"
  components :: "ComponentDependencyRef list"

record GraphMetadata =
  display_name :: "string option"
  metadata_description :: "string option"
  tags :: "string list"
  agent_version :: "string option"

record LLMNodeConfig =
  prompt_template :: string
  llm_output_key :: string
  model_override :: "string option"
  temperature_override :: "rat option"
  max_tokens :: "int option"
  tools_enabled :: bool
  llm_tool_filter :: "string list option"
  max_iterations :: int
  message_key :: "string option"

record ToolNodeConfig =
  execute_all :: bool
  tool_tool_filter :: "string list option"
  tool_output_key :: string
  timeout_seconds :: int

record TransformNodeConfig =
  template :: string
  transform_output_key :: string
  input_keys :: "string list"

record ComponentReference =
  ref_key :: string
  ref_version :: string

record ComponentNodeConfig =
  component_ref :: ComponentReference
  config_overrides :: "(string \<times> json) list"

text \<open>
  The discriminated union \<open>GraphNodeConfig\<close>: the \<open>kind\<close> tag of a node is the constructor
  of its \<open>config\<close>.
\<close>

datatype NodeKindConfig =
    LLM LLMNodeConfig
  | TOOL ToolNodeConfig
  | TRANSFORM TransformNodeConfig
  | COMPONENT ComponentNodeConfig

record GraphNodeConfig =
  node_id :: string
  node_name :: string
  node_description :: "string option"
  reads :: "string list"
  writes :: "string list"
  node_config :: NodeKindConfig

record EdgePredicate =
  state_path :: string
  operator :: PredicateOperator
  predicate_value :: json

text \<open>\<open>when: BuiltinEdgeCondition | EdgePredicate | None\<close> is an option over the two guards.\<close>

datatype EdgeWhen = Builtin BuiltinEdgeCondition | Predicate EdgePredicate

record GraphEdgeConfig =
  from_node :: string
  to_node :: string
  edge_when :: "EdgeWhen option"
  priority :: int
  label :: "string option"

record GraphIR =
  nodes :: "GraphNodeConfig list"
  edges :: "GraphEdgeConfig list"
  entrypoints :: "string list"

text \<open>
  \<open>PromptConfig\<close> comes from \<open>app.schemas.prompt_config\<close>; the graph core only carries
  it, so it is an opaque JSON payload here.
\<close>

type_synonym PromptConfig = json

record GraphConfig =
  schema_version :: string
  key :: string
  revision :: int
  graph :: GraphIR
  state :: GraphStateConfig
  deps :: "GraphDeps option"
  limits :: GraphExecutionLimits
  prompt_config :: "PromptConfig option"
  metadata :: "GraphMetadata option"
  ui :: "(string \<times> json) list option"

subsection \<open>The declared field constraints\<close>

text \<open>
  What \<open>model_validate\<close> checks on a payload of the right shape: the \<open>Field(...)\<close> bounds and
  the \<open>field_validator\<close> of \<open>GraphIR\<close>. Each predicate is named after its class.
\<close>

definition GraphExecutionLimits_ok :: "GraphExecutionLimits \<Rightarrow> bool" where
  "GraphExecutionLimits_ok l \<longleftrightarrow>
     1 \<le> max_time_s l \<and> max_time_s l \<le> 3600 \<and>
     1 \<le> max_steps l \<and> max_steps l \<le> 100000 \<and>
     1 \<le> max_concurrency l \<and> max_concurrency l \<le> 256"

definition GraphDeps_ok :: "GraphDeps \<Rightarrow> bool" where
  "GraphDeps_ok d \<longleftrightarrow>
     list_all (\<lambda>m. 1 \<le> length (model_key m)) (models d) \<and>
     list_all (\<lambda>p. 1 \<le> length (prompt_key p)) (prompts d) \<and>
     list_all (\<lambda>c. 1 \<le> length (component_key c)) (components d)"

fun NodeKindConfig_ok :: "NodeKindConfig \<Rightarrow> bool" where
  "NodeKindConfig_ok (LLM c) \<longleftrightarrow>
     (case temperature_override c of None \<Rightarrow> True | Some t \<Rightarrow> 0 \<le> t \<and> t \<le> 2) \<and>
     1 \<le> max_iterations c"
| "NodeKindConfig_ok (TOOL c) \<longleftrightarrow> 1 \<le> timeout_seconds c \<and> timeout_seconds c \<le> 600"
| "NodeKindConfig_ok (TRANSFORM c) \<longleftrightarrow> True"
| "NodeKindConfig_ok (COMPONENT c) \<longleftrightarrow> 1 \<le> length (ref_key (component_ref c))"

definition GraphNodeConfig_ok :: "GraphNodeConfig \<Rightarrow> bool" where
  "GraphNodeConfig_ok n \<longleftrightarrow>
     1 \<le> length (node_id n) \<and> 1 \<le> length (node_name n) \<and> NodeKindConfig_ok (node_config n)"

definition GraphEdgeConfig_ok :: "GraphEdgeConfig \<Rightarrow> bool" where
  "GraphEdgeConfig_ok e \<longleftrightarrow>
     1 \<le> length (from_node e) \<and> 1 \<le> length (to_node e) \<and>
     (case edge_when e of Some (Predicate p) \<Rightarrow> 1 \<le> length (state_path p) | _ \<Rightarrow> True)"

definition GraphIR_ok :: "GraphIR \<Rightarrow> bool" where
  "GraphIR_ok g \<longleftrightarrow>
     list_all GraphNodeConfig_ok (nodes g) \<and>
     list_all GraphEdgeConfig_ok (edges g) \<and>
     1 \<le> length (entrypoints g) \<and>
     distinct (entrypoints g)"

definition GraphConfig_ok :: "GraphConfig \<Rightarrow> bool" where
  "GraphConfig_ok c \<longleftrightarrow>
     schema_version c = ''3.0'' \<and>
     1 \<le> length (key c) \<and>
     1 \<le> revision c \<and>
     GraphIR_ok (graph c) \<and>
     (case deps c of None \<Rightarrow> True | Some d \<Rightarrow> GraphDeps_ok d) \<and>
     GraphExecutionLimits_ok (limits c)"

section \<open>The canonicalizer: \<open>app/agents/graph/canonicalizer.py\<close>\<close>

text \<open>
  \<open>json.dumps(v, sort_keys=True, default=str)\<close> belongs to the Python standard library; it
  is the parameter \<open>dumps\<close> of the functions below. The leading underscore of a private
  Python name is dropped.
\<close>

fun edge_when_sort_key ::
  "(json \<Rightarrow> string) \<Rightarrow> EdgeWhen option \<Rightarrow> string \<times> string \<times> string \<times> string" where
  "edge_when_sort_key dumps None = (''0'', '''', '''', '''')"
| "edge_when_sort_key dumps (Some (Builtin b)) = (''1'', BuiltinEdgeCondition_value b, '''', '''')"
| "edge_when_sort_key dumps (Some (Predicate p)) =
     (''2'', state_path p, PredicateOperator_value (operator p), dumps (predicate_value p))"

definition edge_sort_key ::
  "(json \<Rightarrow> string) \<Rightarrow> GraphEdgeConfig \<Rightarrow>
     string \<times> int \<times> string \<times> string \<times> string \<times> string \<times> string" where
  "edge_sort_key dumps edge =
     (case edge_when_sort_key dumps (edge_when edge) of
        (when_type, when_path, when_operator, when_value) \<Rightarrow>
          (from_node edge, - priority edge, when_type, when_path, when_operator, when_value,
           to_node edge))"

text \<open>
  \<open>m.model_validate(m.model_dump())\<close> on an optional section: the dump has the fields of
  the model, and validation checks the declared constraints again. \<open>GraphMetadata\<close>
  declares none.
\<close>

definition GraphDeps_revalidate :: "GraphDeps \<Rightarrow> error + GraphDeps" where
  "GraphDeps_revalidate d = (if GraphDeps_ok d then Inr d else Inl (ValidationError ''deps''))"

definition GraphMetadata_revalidate :: "GraphMetadata \<Rightarrow> error + GraphMetadata" where
  "GraphMetadata_revalidate m = Inr m"

text \<open>
  Python's \<open>sorted\<close> is stable, and so is \<open>sort_key\<close>. \<open>model_copy(update=...)\<close> replaces
  the named fields and validates nothing.
\<close>

definition canonicalize_graph_config :: "(json \<Rightarrow> string) \<Rightarrow> GraphConfig \<Rightarrow> error + GraphConfig" where
  "canonicalize_graph_config dumps config =
     (let nodes' = sort_key node_id (nodes (graph config));
          edges' = sort_key (edge_sort_key dumps) (edges (graph config));
          entrypoints' = sort (entrypoints (graph config));
          canonical_graph = (graph config)\<lparr>nodes := nodes', edges := edges', entrypoints := entrypoints'\<rparr>
      in case (case deps config of None \<Rightarrow> Inr None
               | Some d \<Rightarrow> map_sum id Some (GraphDeps_revalidate d)) of
           Inl e \<Rightarrow> Inl e
         | Inr normalized_deps \<Rightarrow>
             (case (case metadata config of None \<Rightarrow> Inr None
                    | Some m \<Rightarrow> map_sum id Some (GraphMetadata_revalidate m)) of
                Inl e \<Rightarrow> Inl e
              | Inr normalized_metadata \<Rightarrow>
                  Inr (config\<lparr>graph := canonical_graph, deps := normalized_deps,
                              metadata := normalized_metadata\<rparr>)))"

section \<open>Python built-ins used by the validator and the upgrader\<close>

text \<open>\<open>str(n)\<close> for a list index \<open>n\<close>.\<close>

fun str_nat :: "nat \<Rightarrow> string" where
  "str_nat n =
     (if n < 10 then [''0123456789'' ! n]
      else str_nat (n div 10) @ [''0123456789'' ! (n mod 10)])"

declare str_nat.simps [simp del]

text \<open>
  \<open>repr\<close> of a \<open>str\<close> of code points below 256, as CPython writes it: single quotes
  unless the string holds a single quote and no double quote; the quote and the backslash
  escaped; tab, newline and carriage return by their letter; any other non-printable code
  point as a backslash, \<open>x\<close> and two hexadecimal digits.
\<close>

definition repr_quote :: "string \<Rightarrow> char" where
  "repr_quote s = (if CHR 0x27 \<in> set s \<and> CHR 0x22 \<notin> set s then CHR 0x22 else CHR 0x27)"

definition is_printable :: "char \<Rightarrow> bool" where
  "is_printable c \<longleftrightarrow>
     (let n = (of_char c :: nat)
      in \<not> (n < 32 \<or> n = 127 \<or> (128 \<le> n \<and> n \<le> 160) \<or> n = 173))"

definition repr_char :: "char \<Rightarrow> char \<Rightarrow> string" where
  "repr_char quote c =
     (if c = quote \<or> c = CHR 0x5C then [CHR 0x5C, c]
      else if c = CHR 0x09 then [CHR 0x5C, CHR ''t'']
      else if c = CHR 0x0A then [CHR 0x5C, CHR ''n'']
      else if c = CHR 0x0D then [CHR 0x5C, CHR ''r'']
      else if \<not> is_printable c then
        [CHR 0x5C, CHR ''x'', ''0123456789abcdef'' ! ((of_char c :: nat) div 16),
         ''0123456789abcdef'' ! ((of_char c :: nat) mod 16)]
      else [c])"

definition repr_str :: "string \<Rightarrow> string" where
  "repr_str s = (let quote = repr_quote s in [quote] @ concat (map (repr_char quote) s) @ [quote])"

text \<open>\<open>sep.join(parts)\<close>.\<close>

fun join :: "string \<Rightarrow> string list \<Rightarrow> string" where
  "join sep [] = []"
| "join sep [x] = x"
| "join sep (x # y # ys) = x @ sep @ join sep (y # ys)"

text \<open>\<open>repr\<close> of a list of \<open>str\<close>, which an f-string writes for \<open>{xs}\<close>.\<close>

definition repr_str_list :: "string list \<Rightarrow> string" where
  "repr_str_list xs = ''['' @ join '', '' (map repr_str xs) @ '']''"

text \<open>
  A Python \<open>set\<close> is a list without repetition. CPython iterates a set of strings in hash
  order, which changes from run to run; where the code iterates over a set, the model
  takes the elements in insertion order. The results that the validator draws from such an
  iteration do not depend on that order, as the characterisations of
  \<open>reachable_from_entrypoints\<close>, \<open>is_end_reachable\<close> and \<open>has_cycle\<close> below show.
  \<open>sorted(s)\<close> of a set is \<open>sort\<close> of its list.
\<close>

definition set_add :: "'a \<Rightarrow> 'a list \<Rightarrow> 'a list" where
  "set_add x s = (if x \<in> set s then s else s @ [x])"

definition py_set :: "'a list \<Rightarrow> 'a list" where
  "py_set xs = fold set_add xs []"

text \<open>
  A \<open>dict\<close> is an association list with distinct keys, in insertion order.
  \<open>d.get(k, default)\<close>, \<open>d[k] = v\<close>, and \<open>d.setdefault(k, []).append(v)\<close>:
\<close>

definition dict_get :: "('k \<times> 'v) list \<Rightarrow> 'k \<Rightarrow> 'v \<Rightarrow> 'v" where
  "dict_get d k dflt = (case map_of d k of None \<Rightarrow> dflt | Some v \<Rightarrow> v)"

fun dict_set :: "'k \<Rightarrow> 'v \<Rightarrow> ('k \<times> 'v) list \<Rightarrow> ('k \<times> 'v) list" where
  "dict_set k v [] = [(k, v)]"
| "dict_set k v ((k', v') # d) = (if k = k' then (k, v) # d else (k', v') # dict_set k v d)"

fun setdefault_append :: "'k \<Rightarrow> 'v \<Rightarrow> ('k \<times> 'v list) list \<Rightarrow> ('k \<times> 'v list) list" where
  "setdefault_append k v [] = [(k, [v])]"
| "setdefault_append k v ((k', vs) # d) =
     (if k = k' then (k', vs @ [v]) # d else (k', vs) # setdefault_append k v d)"

section \<open>The validator: \<open>app/agents/graph/validator.py\<close>\<close>

definition BUILTIN_STATE_PATHS :: "string list" where
  "BUILTIN_STATE_PATHS = [''messages'', ''execution_context'']"

record GraphConfigValidationError =
  code :: string
  path :: string
  message :: string

type_synonym adjacency = "(string \<times> string list) list"

text \<open>
  \<open>_build_adjacency\<close>: one empty set per node id, then \<open>adjacency[from].add(to)\<close> for every
  edge between two node ids. The key is present whenever the guard holds.
\<close>

definition adjacency_add :: "string \<Rightarrow> string \<Rightarrow> adjacency \<Rightarrow> adjacency" where
  "adjacency_add u v adjacency = map (\<lambda>(k, s). if k = u then (k, set_add v s) else (k, s)) adjacency"

definition build_adjacency :: "GraphEdgeConfig list \<Rightarrow> string list \<Rightarrow> adjacency" where
  "build_adjacency es node_ids =
     fold (\<lambda>edge adjacency.
             if from_node edge \<in> set node_ids \<and> to_node edge \<in> set node_ids
             then adjacency_add (from_node edge) (to_node edge) adjacency
             else adjacency)
          es (map (\<lambda>node_id. (node_id, [])) node_ids)"

text \<open>
  \<open>_has_cycle\<close>: the three sets \<open>white\<close>, \<open>gray\<close>, \<open>black\<close> that the closure \<open>visit\<close>
  updates are passed as a state. \<open>visit\<close> calls itself inside its \<open>for\<close> loop; the loop is
  \<open>visit_for\<close>, and the depth of the recursion is bounded by a fuel argument, where
  \<open>None\<close> means that the fuel ran out. The fuel that \<open>has_cycle\<close> starts with is always
  enough (\<open>has_cycle_returns\<close> below).
\<close>

record colours =
  white :: "string list"
  gray :: "string list"
  black :: "string list"

fun visit :: "adjacency \<Rightarrow> nat \<Rightarrow> string \<Rightarrow> colours \<Rightarrow> (bool \<times> colours) option"
  and visit_for :: "adjacency \<Rightarrow> nat \<Rightarrow> string \<Rightarrow> string list \<Rightarrow> colours \<Rightarrow> (bool \<times> colours) option"
where
  "visit adjacency 0 node c = None"
| "visit adjacency (Suc fuel) node c =
     visit_for adjacency fuel node (dict_get adjacency node [])
       (c\<lparr>white := removeAll node (white c), gray := set_add node (gray c)\<rparr>)"
| "visit_for adjacency fuel node [] c =
     Some (False, c\<lparr>gray := removeAll node (gray c), black := set_add node (black c)\<rparr>)"
| "visit_for adjacency fuel node (nxt # rest) c =
     (if nxt \<in> set (black c) then visit_for adjacency fuel node rest c
      else if nxt \<in> set (gray c) then Some (True, c)
      else (case visit adjacency fuel nxt c of
              None \<Rightarrow> None
            | Some (True, c') \<Rightarrow> Some (True, c')
            | Some (False, c') \<Rightarrow> visit_for adjacency fuel node rest c'))"

text \<open>
  The \<open>while white\<close> loop takes \<open>next(iter(white))\<close>; each round removes at least that node
  from \<open>white\<close>, so the rounds are counted down from the number of keys.
\<close>

fun has_cycle_while :: "adjacency \<Rightarrow> nat \<Rightarrow> nat \<Rightarrow> colours \<Rightarrow> bool option" where
  "has_cycle_while adjacency fuel rounds c =
     (case white c of
        [] \<Rightarrow> Some False
      | node # _ \<Rightarrow>
          (case rounds of
             0 \<Rightarrow> None
           | Suc rounds' \<Rightarrow>
               (case visit adjacency fuel node c of
                  None \<Rightarrow> None
                | Some (True, c') \<Rightarrow> Some True
                | Some (False, c') \<Rightarrow> has_cycle_while adjacency fuel rounds' c')))"

declare has_cycle_while.simps [simp del]

definition all_nodes :: "adjacency \<Rightarrow> string list" where
  "all_nodes adjacency = remdups (map fst adjacency @ concat (map snd adjacency))"

definition has_cycle :: "adjacency \<Rightarrow> bool option" where
  "has_cycle adjacency =
     has_cycle_while adjacency (Suc (length (all_nodes adjacency))) (length adjacency)
       \<lparr>white = py_set (map fst adjacency), gray = [], black = []\<rparr>"

text \<open>
  \<open>_reachable_from_entrypoints\<close>: \<open>queue.pop(0)\<close> takes the head of the queue, and the \<open>for\<close>
  loop appends the successors that are not yet visited. The loop ends because either the
  set of nodes still to visit or, that set staying the same, the queue gets smaller.
\<close>

function reachable_while :: "adjacency \<Rightarrow> string list \<Rightarrow> string list \<Rightarrow> string list" where
  "reachable_while adjacency [] visited = visited"
| "reachable_while adjacency (node # queue) visited =
     (if node \<in> set visited then reachable_while adjacency queue visited
      else reachable_while adjacency
             (queue @ filter (\<lambda>nxt. nxt \<notin> set (set_add node visited)) (dict_get adjacency node []))
             (set_add node visited))"
  by pat_completeness auto
termination
proof (relation "measures
    [\<lambda>(adjacency, queue, visited).
        card ((set queue \<union> set (concat (map snd adjacency))) - set visited),
     \<lambda>(adjacency, queue, visited). length queue]", goal_cases)
  case 1
  show ?case by simp
next
  case (2 adjacency node queue visited)
  then have "(set (node # queue) \<union> set (concat (map snd adjacency))) - set visited
      = (set queue \<union> set (concat (map snd adjacency))) - set visited"
    by auto
  then show ?case by simp
next
  case (3 adjacency node queue visited)
  let ?S = "set (concat (map snd adjacency))"
  let ?q = "queue @ filter (\<lambda>nxt. nxt \<notin> set (set_add node visited)) (dict_get adjacency node [])"
  have sub: "set (dict_get adjacency node []) \<subseteq> ?S"
    by (force simp: dict_get_def split: option.splits dest: map_of_SomeD [OF sym])
  have "(set ?q \<union> ?S) - set (set_add node visited) \<subset> (set (node # queue) \<union> ?S) - set visited"
    using 3 sub by (auto simp: set_add_def)
  moreover have "finite ((set (node # queue) \<union> ?S) - set visited)"
    by simp
  ultimately have "card ((set ?q \<union> ?S) - set (set_add node visited))
      < card ((set (node # queue) \<union> ?S) - set visited)"
    by (rule psubset_card_mono [rotated])
  then show ?case by simp
qed

definition reachable_from_entrypoints :: "string list \<Rightarrow> adjacency \<Rightarrow> string list" where
  "reachable_from_entrypoints eps adjacency = reachable_while adjacency eps []"

text \<open>
  \<open>_is_end_reachable\<close>: \<open>outgoing\<close> groups the edges by source. The inner \<open>for\<close> loop is
  \<open>end_scan\<close>; it gives \<open>None\<close> when it meets an edge to \<open>END\<close>, where the source returns
  \<open>True\<close>, and the extended queue otherwise.
\<close>

definition outgoing_of :: "GraphEdgeConfig list \<Rightarrow> (string \<times> GraphEdgeConfig list) list" where
  "outgoing_of es = fold (\<lambda>edge outgoing. setdefault_append (from_node edge) edge outgoing) es []"

fun end_scan :: "string list \<Rightarrow> GraphEdgeConfig list \<Rightarrow> string list \<Rightarrow> string list option" where
  "end_scan visited_nodes [] queue = Some queue"
| "end_scan visited_nodes (edge # rest) queue =
     (if to_node edge = ''END'' then None
      else end_scan visited_nodes rest
             (if to_node edge \<notin> set visited_nodes then queue @ [to_node edge] else queue))"

function is_end_reachable_while ::
  "(string \<times> GraphEdgeConfig list) list \<Rightarrow> string list \<Rightarrow> string list \<Rightarrow> bool" where
  "is_end_reachable_while outgoing [] visited_nodes = False"
| "is_end_reachable_while outgoing (node # queue) visited_nodes =
     (if node \<in> set visited_nodes then is_end_reachable_while outgoing queue visited_nodes
      else (case end_scan (set_add node visited_nodes) (dict_get outgoing node []) queue of
              None \<Rightarrow> True
            | Some queue' \<Rightarrow> is_end_reachable_while outgoing queue' (set_add node visited_nodes)))"
  by pat_completeness auto
termination
proof (relation "measures
    [\<lambda>(outgoing, queue, visited).
        card ((set queue \<union> to_node ` set (concat (map snd outgoing))) - set visited),
     \<lambda>(outgoing, queue, visited). length queue]", goal_cases)
  case 1
  show ?case by simp
next
  case (2 outgoing node queue visited)
  then have "(set (node # queue) \<union> to_node ` set (concat (map snd outgoing))) - set visited
      = (set queue \<union> to_node ` set (concat (map snd outgoing))) - set visited"
    by auto
  then show ?case by simp
next
  case (3 outgoing node queue visited queue')
  let ?S = "to_node ` set (concat (map snd outgoing))"
  have scan: "set q' \<subseteq> set q \<union> to_node ` set es" if "end_scan vis es q = Some q'"
    for vis es q q'
    using that
  proof (induction es arbitrary: q)
    case Nil
    then show ?case by simp
  next
    case (Cons e es)
    from Cons.prems have ne: "to_node e \<noteq> ''END''"
      by (auto split: if_splits)
    let ?q = "if to_node e \<notin> set vis then q @ [to_node e] else q"
    from Cons.prems ne have "end_scan vis es ?q = Some q'"
      by simp
    then have "set q' \<subseteq> set ?q \<union> to_node ` set es"
      by (rule Cons.IH)
    then show ?case by (auto split: if_splits)
  qed
  have sub: "set (dict_get outgoing node []) \<subseteq> set (concat (map snd outgoing))"
    by (force simp: dict_get_def split: option.splits dest: map_of_SomeD [OF sym])
  have "set queue' \<subseteq> set queue \<union> ?S"
    using scan [OF 3(2)] sub by blast
  with 3(1) have "(set queue' \<union> ?S) - set (set_add node visited)
      \<subset> (set (node # queue) \<union> ?S) - set visited"
    by (auto simp: set_add_def)
  moreover have "finite ((set (node # queue) \<union> ?S) - set visited)"
    by simp
  ultimately have "card ((set queue' \<union> ?S) - set (set_add node visited))
      < card ((set (node # queue) \<union> ?S) - set visited)"
    by (rule psubset_card_mono [rotated])
  then show ?case by simp
qed

definition is_end_reachable :: "string list \<Rightarrow> GraphEdgeConfig list \<Rightarrow> bool" where
  "is_end_reachable eps es = is_end_reachable_while (outgoing_of es) eps []"

text \<open>
  \<open>validate_graph_config\<close> appends to \<open>errors\<close> block by block; each block of the source is
  one function here, and \<open>validate_graph_config\<close> puts their lists in the order of the source.
  \<open>enumerate 0 xs\<close> is Python's \<open>enumerate(xs)\<close>.
\<close>

definition duplicate_errors :: "string list \<Rightarrow> GraphConfigValidationError list" where
  "duplicate_errors node_ids =
     (let duplicate_ids = py_set (filter (\<lambda>node_id. count_list node_ids node_id > 1) node_ids)
      in if duplicate_ids \<noteq> [] then
           [\<lparr>code = ''DUPLICATE_NODE_ID'', path = ''graph.nodes'',
             message = ''Node IDs must be unique. Duplicates: ''
                       @ repr_str_list (sort duplicate_ids) @ ''.''\<rparr>]
         else [])"

definition entrypoint_count_errors :: "string list \<Rightarrow> GraphConfigValidationError list" where
  "entrypoint_count_errors eps =
     (if length eps \<noteq> 1 then
        [\<lparr>code = ''MULTIPLE_ENTRYPOINTS_UNSUPPORTED'', path = ''graph.entrypoints'',
          message = ''Current runtime requires exactly one entrypoint.''\<rparr>]
      else [])"

definition entrypoint_errors :: "string list \<Rightarrow> string list \<Rightarrow> GraphConfigValidationError list" where
  "entrypoint_errors node_id_set eps =
     concat (map (\<lambda>(idx, entrypoint).
                    if entrypoint \<notin> set node_id_set then
                      [\<lparr>code = ''ENTRYPOINT_NOT_FOUND'',
                        path = ''graph.entrypoints['' @ str_nat idx @ '']'',
                        message = ''Entrypoint '' @ [CHR 0x27] @ entrypoint @ [CHR 0x27]
                                  @ '' does not exist in graph.nodes.''\<rparr>]
                    else [])
                 (enumerate 0 eps))"

text \<open>The body of the loop over \<open>enumerate(edges)\<close>, without the grouping by source.\<close>

definition edge_errors ::
  "string list \<Rightarrow> string list \<Rightarrow> nat \<Rightarrow> GraphEdgeConfig \<Rightarrow> GraphConfigValidationError list" where
  "edge_errors node_id_set state_paths idx edge =
     (let edge_path = ''graph.edges['' @ str_nat idx @ '']'' in
        (if from_node edge = ''START'' then
           [\<lparr>code = ''EDGE_FROM_START_FORBIDDEN'', path = edge_path @ ''.from_node'',
             message = ''Uses graph.entrypoints[]; START edges are not allowed.''\<rparr>]
         else if from_node edge = ''END'' then
           [\<lparr>code = ''EDGE_FROM_END_FORBIDDEN'', path = edge_path @ ''.from_node'',
             message = ''END cannot be used as an edge source.''\<rparr>]
         else if from_node edge \<notin> set node_id_set then
           [\<lparr>code = ''EDGE_SOURCE_NOT_FOUND'', path = edge_path @ ''.from_node'',
             message = ''Edge source '' @ [CHR 0x27] @ from_node edge @ [CHR 0x27]
                       @ '' does not exist.''\<rparr>]
         else [])
        @
        (if to_node edge = ''START'' then
           [\<lparr>code = ''EDGE_TO_START_FORBIDDEN'', path = edge_path @ ''.to_node'',
             message = ''START cannot be used as an edge target.''\<rparr>]
         else if to_node edge \<noteq> ''END'' \<and> to_node edge \<notin> set node_id_set then
           [\<lparr>code = ''EDGE_TARGET_NOT_FOUND'', path = edge_path @ ''.to_node'',
             message = ''Edge target '' @ [CHR 0x27] @ to_node edge @ [CHR 0x27]
                       @ '' does not exist.''\<rparr>]
         else [])
        @
        (case edge_when edge of
           Some (Predicate p) \<Rightarrow>
             if state_path p \<notin> set state_paths then
               [\<lparr>code = ''PREDICATE_STATE_PATH_MISSING'', path = edge_path @ ''.when.state_path'',
                 message = ''Predicate state_path '' @ [CHR 0x27] @ state_path p @ [CHR 0x27]
                           @ '' is missing in state.schema ''
                           @ ''and is not a built-in state path.''\<rparr>]
             else []
         | _ \<Rightarrow> []))"

definition edges_by_source_of ::
  "GraphEdgeConfig list \<Rightarrow> (string \<times> (nat \<times> GraphEdgeConfig) list) list" where
  "edges_by_source_of es =
     fold (\<lambda>(idx, edge) edges_by_source. setdefault_append (from_node edge) (idx, edge) edges_by_source)
          (enumerate 0 es) []"

text \<open>The determinism checks for one source node and its edges.\<close>

definition determinism_errors ::
  "string \<Rightarrow> (nat \<times> GraphEdgeConfig) list \<Rightarrow> GraphConfigValidationError list" where
  "determinism_errors source edge_entries =
     (let default_edges = filter (\<lambda>(idx, edge). edge_when edge = None) edge_entries;
          has_tool_edges =
            filter (\<lambda>(idx, edge). edge_when edge = Some (Builtin HAS_TOOL_CALLS)) edge_entries;
          no_tool_edges =
            filter (\<lambda>(idx, edge). edge_when edge = Some (Builtin NO_TOOL_CALLS)) edge_entries;
          custom_predicate_edges =
            filter (\<lambda>(idx, edge). case edge_when edge of Some (Predicate p) \<Rightarrow> True | _ \<Rightarrow> False)
                   edge_entries
      in
        (if length default_edges > 1 then
           [\<lparr>code = ''MULTIPLE_DEFAULT_EDGES'',
             path = ''graph.edges['' @ str_nat (fst (default_edges ! 1)) @ ''].when'',
             message = ''Node '' @ [CHR 0x27] @ source @ [CHR 0x27]
                       @ '' has more than one unconditional edge.''\<rparr>]
         else [])
        @
        (if length has_tool_edges > 1 then
           [\<lparr>code = ''DUPLICATE_HAS_TOOL_CALLS_EDGE'',
             path = ''graph.edges['' @ str_nat (fst (has_tool_edges ! 1)) @ ''].when'',
             message = ''Node '' @ [CHR 0x27] @ source @ [CHR 0x27]
                       @ '' has duplicate has_tool_calls edges.''\<rparr>]
         else [])
        @
        (if length no_tool_edges > 1 then
           [\<lparr>code = ''DUPLICATE_NO_TOOL_CALLS_EDGE'',
             path = ''graph.edges['' @ str_nat (fst (no_tool_edges ! 1)) @ ''].when'',
             message = ''Node '' @ [CHR 0x27] @ source @ [CHR 0x27]
                       @ '' has duplicate no_tool_calls edges.''\<rparr>]
         else [])
        @
        (if (has_tool_edges \<noteq> [] \<or> no_tool_edges \<noteq> []) \<and> custom_predicate_edges \<noteq> [] then
           [\<lparr>code = ''MIXED_BUILTIN_AND_CUSTOM_ROUTING'',
             path = ''graph.edges['' @ str_nat (fst (custom_predicate_edges ! 0)) @ ''].when'',
             message = ''Node '' @ [CHR 0x27] @ source @ [CHR 0x27]
                       @ '' mixes built-in tool routing and custom predicates.''\<rparr>]
         else []))"

definition unreachable_errors ::
  "string list \<Rightarrow> string list \<Rightarrow> GraphConfigValidationError list" where
  "unreachable_errors node_id_set reachable =
     (let unreachable = filter (\<lambda>node_id. node_id \<notin> set reachable) node_id_set
      in if unreachable \<noteq> [] then
           [\<lparr>code = ''UNREACHABLE_NODE'', path = ''graph.nodes'',
             message = ''Unreachable nodes from entrypoints: ''
                       @ repr_str_list (sort unreachable) @ ''.''\<rparr>]
         else [])"

definition end_unreachable_errors ::
  "string list \<Rightarrow> GraphEdgeConfig list \<Rightarrow> GraphConfigValidationError list" where
  "end_unreachable_errors eps es =
     (if \<not> is_end_reachable eps es then
        [\<lparr>code = ''END_UNREACHABLE'', path = ''graph.edges'',
          message = ''No execution path from entrypoints can reach END.''\<rparr>]
      else [])"

definition cycle_errors :: "bool \<Rightarrow> GraphExecutionLimits \<Rightarrow> GraphConfigValidationError list" where
  "cycle_errors cyclic l =
     (if cyclic then
        (if max_steps l \<le> 0 \<and> max_time_s l \<le> 0 then
           [\<lparr>code = ''CYCLE_LIMITS_REQUIRED'', path = ''limits'',
             message = ''Graphs with cycles require max_steps or max_time_s limits.''\<rparr>]
         else [])
      else [])"

text \<open>
  The result is \<open>None\<close> only if \<open>has_cycle\<close> ran out of fuel, which it never does
  (\<open>validate_graph_config_returns\<close>).
\<close>

definition validate_graph_config :: "GraphConfig \<Rightarrow> GraphConfigValidationError list option" where
  "validate_graph_config config =
     (let ns = nodes (graph config);
          es = edges (graph config);
          eps = entrypoints (graph config)
      in if ns = [] then
           Some [\<lparr>code = ''EMPTY_GRAPH'', path = ''graph.nodes'',
                  message = ''Graph must contain at least one node.''\<rparr>]
         else
           (let node_ids = map node_id ns;
                node_id_set = py_set node_ids;
                state_paths = fold set_add BUILTIN_STATE_PATHS
                                (py_set (map fst (state_schema (state config))));
                adjacency = build_adjacency es node_id_set;
                reachable = reachable_from_entrypoints eps adjacency
            in case has_cycle adjacency of
                 None \<Rightarrow> None
               | Some cyclic \<Rightarrow>
                   Some (duplicate_errors node_ids
                         @ entrypoint_count_errors eps
                         @ entrypoint_errors node_id_set eps
                         @ concat (map (\<lambda>(idx, edge). edge_errors node_id_set state_paths idx edge)
                                       (enumerate 0 es))
                         @ concat (map (\<lambda>(source, edge_entries). determinism_errors source edge_entries)
                                       (edges_by_source_of es))
                         @ unreachable_errors node_id_set reachable
                         @ end_unreachable_errors eps es
                         @ cycle_errors cyclic (limits config))))"

text \<open>
  \<open>ensure_valid_graph_config\<close> returns nothing for an empty list and raises \<open>ValueError\<close>
  otherwise.
\<close>

definition ensure_valid_graph_config :: "GraphConfig \<Rightarrow> (error + unit) option" where
  "ensure_valid_graph_config config =
     (case validate_graph_config config of
        None \<Rightarrow> None
      | Some errors \<Rightarrow>
          Some (if errors = [] then Inr ()
                else Inl (ValueError
                       (''Invalid graph configuration: ''
                        @ join ''; '' (map (\<lambda>e. code e @ '' ('' @ path e @ ''): '' @ message e) errors)))))"

section \<open>Parsing and serialising: \<open>parse_graph_config\<close> and \<open>model_dump\<close>\<close>

text \<open>
  A raw payload is a \<open>dict[str, Any]\<close>. The model takes it after pydantic's structural
  pass: the sections are typed, a top-level field that has a default may be absent
  (\<open>None\<close>), and the legacy key \<open>version\<close>, which the closed schema
  (\<open>extra = "forbid"\<close>) rejects, is kept apart. What is left for \<open>model_validate\<close> to do
  is to fill the defaults in and to check the declared constraints, \<open>GraphConfig_ok\<close>.
\<close>

record RawGraphExecutionLimits =
  raw_max_time_s :: "int option"
  raw_max_steps :: "int option"
  raw_max_concurrency :: "int option"

record RawGraphConfig =
  raw_schema_version :: "string option"
  raw_version :: "string option"
  raw_key :: string
  raw_revision :: "int option"
  raw_graph :: GraphIR
  raw_state :: "GraphStateConfig option"
  raw_deps :: "GraphDeps option"
  raw_limits :: "RawGraphExecutionLimits option"
  raw_prompt_config :: "PromptConfig option"
  raw_metadata :: "GraphMetadata option"
  raw_ui :: "(string \<times> json) list option"

definition or_default :: "'a option \<Rightarrow> 'a \<Rightarrow> 'a" where
  "or_default v d = (case v of None \<Rightarrow> d | Some x \<Rightarrow> x)"

definition parse_limits :: "RawGraphExecutionLimits option \<Rightarrow> GraphExecutionLimits" where
  "parse_limits raw =
     (case raw of
        None \<Rightarrow> \<lparr>max_time_s = 300, max_steps = 128, max_concurrency = 10\<rparr>
      | Some l \<Rightarrow>
          \<lparr>max_time_s = or_default (raw_max_time_s l) 300,
           max_steps = or_default (raw_max_steps l) 128,
           max_concurrency = or_default (raw_max_concurrency l) 10\<rparr>)"

definition parse_graph_config :: "RawGraphConfig \<Rightarrow> error + GraphConfig" where
  "parse_graph_config raw =
     (let config =
            \<lparr>schema_version = or_default (raw_schema_version raw) ''3.0'',
             key = raw_key raw,
             revision = or_default (raw_revision raw) 1,
             graph = raw_graph raw,
             state = or_default (raw_state raw) \<lparr>state_schema = [], reducers = []\<rparr>,
             deps = raw_deps raw,
             limits = parse_limits (raw_limits raw),
             prompt_config = raw_prompt_config raw,
             metadata = raw_metadata raw,
             ui = raw_ui raw\<rparr>
      in if raw_version raw = None \<and> GraphConfig_ok config then Inr config
         else Inl (ValidationError ''GraphConfig''))"

text \<open>\<open>model_dump()\<close> writes every field of the model.\<close>

definition model_dump :: "GraphConfig \<Rightarrow> RawGraphConfig" where
  "model_dump config =
     \<lparr>raw_schema_version = Some (schema_version config),
      raw_version = None,
      raw_key = key config,
      raw_revision = Some (revision config),
      raw_graph = graph config,
      raw_state = Some (state config),
      raw_deps = deps config,
      raw_limits = Some \<lparr>raw_max_time_s = Some (max_time_s (limits config)),
                          raw_max_steps = Some (max_steps (limits config)),
                          raw_max_concurrency = Some (max_concurrency (limits config))\<rparr>,
      raw_prompt_config = prompt_config config,
      raw_metadata = metadata config,
      raw_ui = ui config\<rparr>"

section \<open>The upgrader: \<open>app/agents/graph/upgrader.py\<close>\<close>

record GraphConfigMigrationWarning =
  warning_code :: string
  warning_path :: string
  warning_message :: string

record GraphConfigMigrationResult =
  source_version :: string
  result_config :: GraphConfig
  warnings :: "GraphConfigMigrationWarning list"

text \<open>\<open>str(exc)\<close> of a caught exception.\<close>

fun error_str :: "error \<Rightarrow> string" where
  "error_str (ValidationError m) = m"
| "error_str (ValueError m) = m"
| "error_str IndexError = ''list index out of range''"
| "error_str TypeError = ''object is not iterable''"
| "error_str (GraphConfigMigrationError c p m) = c @ '' ('' @ p @ ''): '' @ m"

text \<open>
  \<open>detect_graph_config_version\<close>: \<open>schema_version\<close> when it is there and not empty, else
  \<open>version\<close>, else \<open>"1.0"\<close>.
\<close>

definition detect_graph_config_version :: "RawGraphConfig \<Rightarrow> string" where
  "detect_graph_config_version raw_config =
     (if or_default (raw_schema_version raw_config) [] \<noteq> []
      then or_default (raw_schema_version raw_config) []
      else or_default (raw_version raw_config) ''1.0'')"

definition is_explicit_empty_graph :: "RawGraphConfig \<Rightarrow> bool" where
  "is_explicit_empty_graph raw_config \<longleftrightarrow> nodes (raw_graph raw_config) = []"

text \<open>
  \<open>upgrade_graph_config\<close>. The branch for version 3 is lines 67 to 82. The conversion of a
  legacy payload (lines 91 to 145) rests on \<open>app.schemas.graph_config_legacy\<close>, which is
  not among the sources; it is the parameter \<open>legacy\<close>, applied to the detected version
  and the payload. The outer \<open>option\<close> is the fuel of \<open>has_cycle\<close>.
\<close>

definition upgrade_graph_config ::
  "(json \<Rightarrow> string) \<Rightarrow>
   (string \<Rightarrow> RawGraphConfig \<Rightarrow> (error + GraphConfigMigrationResult) option) \<Rightarrow>
   RawGraphConfig \<Rightarrow> (error + GraphConfigMigrationResult) option" where
  "upgrade_graph_config dumps legacy raw_config =
     (let source_version = detect_graph_config_version raw_config;
          invalid = (\<lambda>exc. Inl (GraphConfigMigrationError ''INVALID_V3_CONFIG'' ''graph_config''
                                   (error_str exc)))
      in if prefix ''3.'' source_version then
           (case parse_graph_config raw_config of
              Inl exc \<Rightarrow> Some (invalid exc)
            | Inr parsed \<Rightarrow>
                (case canonicalize_graph_config dumps parsed of
                   Inl exc \<Rightarrow> Some (invalid exc)
                 | Inr canonical \<Rightarrow>
                     (case ensure_valid_graph_config canonical of
                        None \<Rightarrow> None
                      | Some (Inl exc) \<Rightarrow> Some (invalid exc)
                      | Some (Inr u) \<Rightarrow>
                          Some (Inr \<lparr>source_version = source_version,
                                     result_config = canonical,
                                     warnings = []\<rparr>))))
         else if is_explicit_empty_graph raw_config then
           Some (Inl (GraphConfigMigrationError ''EMPTY_GRAPH'' ''graph_config.nodes''
                        ''Empty graph cannot be auto-migrated.''))
         else legacy source_version raw_config)"

subsection \<open>\<open>_derive_entrypoints\<close>\<close>

text \<open>
  The legacy configuration, with the fields that \<open>_derive_entrypoints\<close> reads:
  \<open>entry_point\<close>, the \<open>from_node\<close> and \<open>to_node\<close> of each edge, and the \<open>id\<close> of each
  node. An \<open>entry_point\<close> that is \<open>None\<close> or empty is falsy.
\<close>

record LegacyGraphEdgeConfig =
  legacy_from_node :: string
  legacy_to_node :: string

record LegacyGraphNodeConfig =
  legacy_id :: string

record LegacyGraphConfig =
  legacy_nodes :: "LegacyGraphNodeConfig list"
  legacy_edges :: "LegacyGraphEdgeConfig list"
  entry_point :: "string option"

text \<open>
  The list \<open>warnings\<close> that the function appends to is passed in and returned.
  \<open>config_v2.nodes[0]\<close> raises \<open>IndexError\<close> on an empty list.
\<close>

definition start_targets_of :: "LegacyGraphEdgeConfig list \<Rightarrow> string list \<Rightarrow> string list" where
  "start_targets_of es node_ids =
     fold (\<lambda>edge start_targets.
             if legacy_from_node edge = ''START'' \<and> legacy_to_node edge \<in> set node_ids
                \<and> legacy_to_node edge \<notin> set start_targets
             then start_targets @ [legacy_to_node edge] else start_targets)
          es []"

definition derive_entrypoints ::
  "LegacyGraphConfig \<Rightarrow> string list \<Rightarrow> GraphConfigMigrationWarning list \<Rightarrow>
   error + (string list \<times> GraphConfigMigrationWarning list)" where
  "derive_entrypoints config_v2 node_ids ws =
     (let ep = or_default (entry_point config_v2) [] in
      if ep \<noteq> [] \<and> ep \<in> set node_ids then Inr ([ep], ws)
      else
        (let ws1 =
               (if ep \<noteq> [] \<and> ep \<notin> set node_ids then
                  ws @ [\<lparr>warning_code = ''INVALID_ENTRYPOINT_FALLBACK'',
                          warning_path = ''entry_point'',
                          warning_message = ''entry_point '' @ [CHR 0x27] @ ep @ [CHR 0x27]
                            @ '' does not exist; deriving entrypoint from edges.''\<rparr>]
                else ws);
             start_targets = start_targets_of (legacy_edges config_v2) node_ids
         in case start_targets of
              first # others \<Rightarrow>
                Inr ([first],
                     if length start_targets > 1 then
                       ws1 @ [\<lparr>warning_code = ''MULTIPLE_START_TARGETS_PICK_FIRST'',
                               warning_path = ''edges'',
                               warning_message = ''Multiple START targets found ''
                                 @ repr_str_list start_targets @ ''; selected ''
                                 @ [CHR 0x27] @ first @ [CHR 0x27] @ ''.''\<rparr>]
                     else ws1)
            | [] \<Rightarrow>
                (case legacy_nodes config_v2 of
                   [] \<Rightarrow> Inl IndexError
                 | node # rest \<Rightarrow>
                     Inr ([legacy_id node],
                          ws1 @ [\<lparr>warning_code = ''MISSING_ENTRYPOINT_FALLBACK'',
                                  warning_path = ''entry_point'',
                                  warning_message = ''No entrypoint found; defaulted to first node ''
                                    @ [CHR 0x27] @ legacy_id node @ [CHR 0x27] @ ''.''\<rparr>]))))"

section \<open>Prompt injection: \<open>_inject_system_prompt\<close> of \<open>app/agents/factory.py\<close>\<close>

text \<open>
  \<open>s.strip()\<close> removes the white space at both ends; among the code points below 256,
  \<open>str.isspace\<close> holds for 9 to 13, 28 to 32, 133 and 160.
\<close>

definition is_space :: "char \<Rightarrow> bool" where
  "is_space c \<longleftrightarrow>
     (let n = (of_char c :: nat)
      in (9 \<le> n \<and> n \<le> 13) \<or> (28 \<le> n \<and> n \<le> 32) \<or> n = 133 \<or> n = 160)"

definition strip :: "string \<Rightarrow> string" where
  "strip s = rev (dropWhile is_space (rev (dropWhile is_space s)))"

definition merge_layered_prompt :: "string \<Rightarrow> json \<Rightarrow> string" where
  "merge_layered_prompt base_prompt node_prompt =
     (let base = strip base_prompt;
          node = (case node_prompt of JStr s \<Rightarrow> strip s | _ \<Rightarrow> [])
      in if base \<noteq> [] \<and> node \<noteq> [] then
           base @ [CHR 0x0A, CHR 0x0A] @ ''<NODE_PROMPT>'' @ [CHR 0x0A] @ node @ [CHR 0x0A]
             @ ''</NODE_PROMPT>''
         else if base \<noteq> [] then base
         else node)"

text \<open>
  \<open>d.setdefault(k, default)\<close> gives the value under \<open>k\<close>, after storing the default when
  the key is absent; the result is the dict and that value.
\<close>

definition setdefault :: "string \<Rightarrow> json \<Rightarrow> (string \<times> json) list \<Rightarrow> (string \<times> json) list \<times> json" where
  "setdefault k dflt d =
     (case map_of d k of None \<Rightarrow> (d @ [(k, dflt)], dflt) | Some v \<Rightarrow> (d, v))"

text \<open>
  The two branches of the loop body, for a node that is a dict. They are the same for the
  v2 shape and the canonical shape but for the key of the node's configuration
  (\<open>component_config\<close> or \<open>llm_config\<close> against \<open>config\<close>). A write into a nested dict is
  written back into the dict that holds it. The counters of the source only feed the log
  line and are left out.
\<close>

definition inject_component :: "string \<Rightarrow> string \<Rightarrow> (string \<times> json) list \<Rightarrow> (string \<times> json) list" where
  "inject_component config_key system_prompt node =
     (case setdefault config_key (JDict []) node of
        (node1, JDict comp_config) \<Rightarrow>
          (case setdefault ''config_overrides'' (JDict []) comp_config of
             (comp_config1, JDict overrides) \<Rightarrow>
               (let existing_component_prompt = dict_get overrides ''system_prompt'' JNull;
                    overrides1 =
                      dict_set ''system_prompt''
                        (JStr (merge_layered_prompt system_prompt existing_component_prompt))
                        overrides
                in dict_set config_key
                     (JDict (dict_set ''config_overrides'' (JDict overrides1) comp_config1)) node1)
           | (comp_config1, _) \<Rightarrow> dict_set config_key (JDict comp_config1) node1)
      | (node1, _) \<Rightarrow> node1)"

definition inject_llm :: "string \<Rightarrow> string \<Rightarrow> (string \<times> json) list \<Rightarrow> (string \<times> json) list" where
  "inject_llm config_key system_prompt node =
     (case setdefault config_key (JDict []) node of
        (node1, JDict llm_config) \<Rightarrow>
          (let existing_prompt = dict_get llm_config ''prompt_template'' JNull
           in dict_set config_key
                (JDict (dict_set ''prompt_template''
                          (JStr (merge_layered_prompt system_prompt existing_prompt)) llm_config))
                node1)
      | (node1, _) \<Rightarrow> node1)"

definition inject_node :: "string \<Rightarrow> json \<Rightarrow> json" where
  "inject_node system_prompt node =
     (case node of
        JDict n \<Rightarrow>
          if dict_get n ''type'' JNull = JStr ''component'' then
            JDict (inject_component ''component_config'' system_prompt n)
          else if dict_get n ''type'' JNull = JStr ''llm'' then
            JDict (inject_llm ''llm_config'' system_prompt n)
          else if dict_get n ''kind'' JNull = JStr ''component'' then
            JDict (inject_component ''config'' system_prompt n)
          else if dict_get n ''kind'' JNull = JStr ''llm'' then
            JDict (inject_llm ''config'' system_prompt n)
          else node
      | _ \<Rightarrow> node)"

text \<open>Python truth of a JSON value, for \<open>node_list or []\<close>.\<close>

fun truthy :: "json \<Rightarrow> bool" where
  "truthy JNull = False"
| "truthy (JBool b) = b"
| "truthy (JInt i) = (i \<noteq> 0)"
| "truthy (JFloat r) = (r \<noteq> 0)"
| "truthy (JStr s) = (s \<noteq> [])"
| "truthy (JList xs) = (xs \<noteq> [])"
| "truthy (JDict d) = (d \<noteq> [])"

text \<open>
  \<open>_inject_system_prompt\<close>. \<open>copy.deepcopy(config_dict)\<close> gives the function a copy that
  shares nothing with its argument, and every write goes to the copy: the function is a
  function from the value of its argument to the value it returns. The nodes are those
  under \<open>nodes\<close> if that is a list, else those under \<open>graph.nodes\<close> if that is a list.
  Otherwise the loop runs over \<open>config.get("nodes") or []\<close>: nothing for a falsy value, the
  characters of a string or the keys of a dict, none of which is a dict, and a
  \<open>TypeError\<close> for a number or \<open>True\<close>.
\<close>

definition inject_system_prompt :: "(string \<times> json) list \<Rightarrow> string \<Rightarrow> error + (string \<times> json) list" where
  "inject_system_prompt config_dict system_prompt =
     (let config = config_dict in
      case dict_get config ''nodes'' JNull of
        JList node_list \<Rightarrow>
          Inr (dict_set ''nodes'' (JList (map (inject_node system_prompt) node_list)) config)
      | other \<Rightarrow>
          (case dict_get config ''graph'' JNull of
             JDict g \<Rightarrow>
               (case dict_get g ''nodes'' JNull of
                  JList node_list \<Rightarrow>
                    Inr (dict_set ''graph''
                           (JDict (dict_set ''nodes''
                                     (JList (map (inject_node system_prompt) node_list)) g))
                           config)
                | _ \<Rightarrow> (if \<not> truthy other then Inr config
                        else case other of JStr s \<Rightarrow> Inr config | JDict d \<Rightarrow> Inr config
                             | _ \<Rightarrow> Inl TypeError))
           | _ \<Rightarrow> (if \<not> truthy other then Inr config
                   else case other of JStr s \<Rightarrow> Inr config | JDict d \<Rightarrow> Inr config
                        | _ \<Rightarrow> Inl TypeError)))"

text \<open>Reading a value under nested keys, as \<open>d[k1][k2]\<close> on dicts, with \<open>None\<close> when a key is missing.\<close>

fun json_path :: "json \<Rightarrow> string list \<Rightarrow> json" where
  "json_path v [] = v"
| "json_path (JDict d) (k # ks) = json_path (dict_get d k JNull) ks"
| "json_path v (k # ks) = JNull"

section \<open>The component registry: \<open>ComponentRegistry.resolve\<close> of \<open>app/agents/components/__init__.py\<close>\<close>

text \<open>
  Of a component the registry reads \<open>metadata.key\<close> and \<open>metadata.version\<close>. A component
  object is always truthy (the class defines neither \<open>__bool__\<close> nor \<open>__len__\<close>), so
  \<open>not component\<close> holds exactly when the key is absent.
\<close>

record ComponentMetadata =
  metadata_key :: string
  metadata_version :: string

record ExecutableComponent =
  component_metadata :: ComponentMetadata

text \<open>
  The version arithmetic is done by the third-party library \<open>packaging\<close>. \<open>resolve\<close> takes
  it as a parameter: the two constructors, which raise on a string they cannot parse
  (\<open>Inl\<close> of the exception's text), the \<open>major\<close> and \<open>minor\<close> of a version, its \<open>str\<close>,
  and the test \<open>version in specifier\<close>. A library that is not installed (\<open>ImportError\<close>)
  is \<open>None\<close>.
\<close>

record ('v, 's) packaging =
  Version :: "string \<Rightarrow> string + 'v"
  major :: "'v \<Rightarrow> nat"
  minor :: "'v \<Rightarrow> nat"
  version_str :: "'v \<Rightarrow> string"
  SpecifierSet :: "string \<Rightarrow> string + 's"
  contains :: "'s \<Rightarrow> 'v \<Rightarrow> bool"

datatype log_record = Debug string | Warning string

text \<open>
  The specifier that the \<open>try\<close> block builds from the constraint: the first exception
  of a constructor leaves the block.
\<close>

definition constraint_specifier :: "('v, 's) packaging \<Rightarrow> string \<Rightarrow> string + 's" where
  "constraint_specifier pkg version_constraint =
     (if prefix ''^'' version_constraint then
        (let base_version = drop 1 version_constraint in
         case Version pkg base_version of
           Inl e \<Rightarrow> Inl e
         | Inr base \<Rightarrow>
             (let next_major = str_nat (major pkg base + 1) @ ''.0.0''
              in SpecifierSet pkg (''>='' @ base_version @ '',<'' @ next_major)))
      else if prefix ''~'' version_constraint then
        (let base_version = drop 1 version_constraint in
         case Version pkg base_version of
           Inl e \<Rightarrow> Inl e
         | Inr base \<Rightarrow>
             (let next_minor = str_nat (major pkg base) @ ''.'' @ str_nat (minor pkg base + 1) @ ''.0''
              in SpecifierSet pkg (''>='' @ base_version @ '',<'' @ next_minor)))
      else SpecifierSet pkg version_constraint)"

text \<open>\<open>resolve\<close> returns the component or \<open>None\<close>; the records it logs are returned with it.\<close>

definition resolve ::
  "('v, 's) packaging option \<Rightarrow> (string \<times> ExecutableComponent) list \<Rightarrow> string \<Rightarrow> string \<Rightarrow>
   ExecutableComponent option \<times> log_record list" where
  "resolve packaging_lib components_dict k version_constraint =
     (case map_of components_dict k of
        None \<Rightarrow> (None, [Debug (''Component not found: '' @ k)])
      | Some component \<Rightarrow>
          if version_constraint = ''*'' then (Some component, [])
          else
            (case packaging_lib of
               None \<Rightarrow>
                 (Some component,
                  [Warning ''packaging library not installed, skipping version check''])
             | Some pkg \<Rightarrow>
                 (let failed = (\<lambda>e. (Some component,
                        [Warning (''Version parsing failed for '' @ k @ '': '' @ e
                                  @ '', returning component'')]))
                  in case Version pkg (metadata_version (component_metadata component)) of
                       Inl e \<Rightarrow> failed e
                     | Inr comp_version \<Rightarrow>
                         (case constraint_specifier pkg version_constraint of
                            Inl e \<Rightarrow> failed e
                          | Inr specifier \<Rightarrow>
                              if contains pkg specifier comp_version then (Some component, [])
                              else (None,
                                    [Debug (''Component '' @ k @ '' version ''
                                            @ version_str pkg comp_version
                                            @ '' doesn'' @ [CHR 0x27] @ ''t match constraint ''
                                            @ version_constraint)])))))"

subsection \<open>A stand-in for \<open>packaging\<close> on plain release versions\<close>

text \<open>
  To run \<open>resolve\<close> on concrete inputs: versions are dotted numbers, compared as
  \<open>packaging\<close> compares releases (missing parts count as zero), and a specifier is a
  comma-separated list of comparisons.
\<close>

fun split_on :: "char \<Rightarrow> string \<Rightarrow> string list" where
  "split_on c [] = [[]]"
| "split_on c (x # xs) =
     (if x = c then [] # split_on c xs
      else (case split_on c xs of [] \<Rightarrow> [[x]] | p # ps \<Rightarrow> (x # p) # ps))"

definition digit_of :: "char \<Rightarrow> nat option" where
  "digit_of c =
     (let n = (of_char c :: nat) in if 48 \<le> n \<and> n \<le> 57 then Some (n - 48) else None)"

definition parse_nat :: "string \<Rightarrow> nat option" where
  "parse_nat s =
     (if s = [] then None
      else map_option (foldl (\<lambda>acc d. 10 * acc + d) 0) (those (map digit_of s)))"

definition parse_release :: "string \<Rightarrow> string + nat list" where
  "parse_release s =
     (case those (map parse_nat (split_on (CHR ''.'') s)) of
        None \<Rightarrow> Inl (''Invalid version: '' @ s)
      | Some r \<Rightarrow> Inr r)"

definition pad_release :: "nat \<Rightarrow> nat list \<Rightarrow> nat list" where
  "pad_release n r = r @ replicate (n - length r) 0"

datatype comparison = GE | LE | EQ | NE | LT | GT

definition parse_clause :: "string \<Rightarrow> (comparison \<times> nat list) option" where
  "parse_clause s =
     (let two = take 2 s; one = take 1 s;
          with = (\<lambda>cmp rest. case parse_release rest of Inl e \<Rightarrow> None | Inr r \<Rightarrow> Some (cmp, r))
      in if two = ''>='' then with GE (drop 2 s)
         else if two = ''<='' then with LE (drop 2 s)
         else if two = ''=='' then with EQ (drop 2 s)
         else if two = ''!='' then with NE (drop 2 s)
         else if one = ''<'' then with LT (drop 1 s)
         else if one = ''>'' then with GT (drop 1 s)
         else None)"

definition parse_specifier :: "string \<Rightarrow> string + (comparison \<times> nat list) list" where
  "parse_specifier s =
     (case those (map parse_clause (split_on (CHR '','') s)) of
        None \<Rightarrow> Inl (''Invalid specifier: '' @ s)
      | Some cs \<Rightarrow> Inr cs)"

fun satisfies :: "nat list \<Rightarrow> comparison \<times> nat list \<Rightarrow> bool" where
  "satisfies v (cmp, r) =
     (let n = max (length v) (length r); a = pad_release n v; b = pad_release n r
      in case cmp of
           GE \<Rightarrow> b \<le> a | LE \<Rightarrow> a \<le> b | EQ \<Rightarrow> a = b | NE \<Rightarrow> a \<noteq> b | LT \<Rightarrow> a < b | GT \<Rightarrow> b < a)"

definition release_packaging :: "(nat list, (comparison \<times> nat list) list) packaging" where
  "release_packaging =
     \<lparr>Version = parse_release,
      major = (\<lambda>v. case v of [] \<Rightarrow> 0 | x # xs \<Rightarrow> x),
      minor = (\<lambda>v. case v of x # y # ys \<Rightarrow> y | _ \<Rightarrow> 0),
      version_str = (\<lambda>v. join ''.'' (map str_nat v)),
      SpecifierSet = parse_specifier,
      contains = (\<lambda>spec v. list_all (satisfies v) spec)\<rparr>"

section \<open>Concrete inputs\<close>

text \<open>
  A stand-in for \<open>json.dumps(v, sort_keys=True, default=str)\<close> on values without floats
  and without characters that need an escape, to run the functions on concrete inputs.
\<close>

fun json_dumps_plain :: "json \<Rightarrow> string" where
  "json_dumps_plain JNull = ''null''"
| "json_dumps_plain (JBool b) = (if b then ''true'' else ''false'')"
| "json_dumps_plain (JInt i) = (if i < 0 then ''-'' @ str_nat (nat (- i)) else str_nat (nat i))"
| "json_dumps_plain (JFloat r) = ''float''"
| "json_dumps_plain (JStr s) = [CHR 0x22] @ s @ [CHR 0x22]"
| "json_dumps_plain (JList xs) = ''['' @ join '', '' (map json_dumps_plain xs) @ '']''"
| "json_dumps_plain (JDict d) =
     ''{'' @ join '', '' (map (\<lambda>(k, v). [CHR 0x22] @ k @ [CHR 0x22] @ '': '' @ json_dumps_plain v)
                              (sort_key fst d)) @ ''}''"

definition llm_node :: "string \<Rightarrow> string \<Rightarrow> string \<Rightarrow> GraphNodeConfig" where
  "llm_node i n p =
     \<lparr>node_id = i, node_name = n, node_description = None, reads = [], writes = [],
      node_config = LLM \<lparr>prompt_template = p, llm_output_key = ''response'',
        model_override = None, temperature_override = None, max_tokens = None,
        tools_enabled = False, llm_tool_filter = None, max_iterations = 10,
        message_key = None\<rparr>\<rparr>"

definition edge_of :: "string \<Rightarrow> string \<Rightarrow> EdgeWhen option \<Rightarrow> int \<Rightarrow> GraphEdgeConfig" where
  "edge_of u v w p = \<lparr>from_node = u, to_node = v, edge_when = w, priority = p, label = None\<rparr>"

definition config_of ::
  "string \<Rightarrow> GraphNodeConfig list \<Rightarrow> GraphEdgeConfig list \<Rightarrow> string list \<Rightarrow> int \<Rightarrow> int \<Rightarrow> GraphConfig" where
  "config_of k ns es eps steps time_s =
     \<lparr>schema_version = ''3.0'', key = k, revision = 1,
      graph = \<lparr>nodes = ns, edges = es, entrypoints = eps\<rparr>,
      state = \<lparr>state_schema = [], reducers = []\<rparr>,
      deps = None,
      limits = \<lparr>max_time_s = time_s, max_steps = steps, max_concurrency = 10\<rparr>,
      prompt_config = None, metadata = None, ui = None\<rparr>"

text \<open>The configuration of \<open>tests/unit/agents/graph/test_canonicalizer.py\<close>.\<close>

definition ordering_test :: GraphConfig where
  "ordering_test =
     config_of ''ordering_test''
       [llm_node ''z_entry'' ''Z Entry'' ''z'', llm_node ''a_entry'' ''A Entry'' ''a'']
       [edge_of ''z_entry'' ''END'' None 0, edge_of ''a_entry'' ''END'' None 10,
        edge_of ''a_entry'' ''z_entry'' None 0]
       [''z_entry'', ''a_entry''] 64 300"

definition ordering_test_canonical :: GraphConfig where
  "ordering_test_canonical =
     config_of ''ordering_test''
       [llm_node ''a_entry'' ''A Entry'' ''a'', llm_node ''z_entry'' ''Z Entry'' ''z'']
       [edge_of ''a_entry'' ''END'' None 10, edge_of ''a_entry'' ''z_entry'' None 0,
        edge_of ''z_entry'' ''END'' None 0]
       [''a_entry'', ''z_entry''] 64 300"

text \<open>The base configuration of \<open>tests/unit/agents/graph/test_validator.py\<close>.\<close>

definition base_config :: GraphConfig where
  "base_config =
     config_of ''test_agent''
       [(llm_node ''agent'' ''Agent'' ''You are helpful.'')
          \<lparr>reads := [''messages''], writes := [''messages'', ''response'']\<rparr>]
       [edge_of ''agent'' ''END'' None 0] [''agent''] 64 300"

text \<open>
  A loop between two nodes with a guarded way out, with the step and time limits as
  parameters.
\<close>

definition loop_config :: "int \<Rightarrow> int \<Rightarrow> GraphConfig" where
  "loop_config steps time_s =
     config_of ''loop'' [llm_node ''a'' ''A'' ''a'', llm_node ''b'' ''B'' ''b'']
       [edge_of ''a'' ''b'' None 0, edge_of ''b'' ''a'' None 0,
        edge_of ''b'' ''END''
          (Some (Predicate \<lparr>state_path = ''messages'', operator = TRUTHY, predicate_value = JNull\<rparr>)) 1]
       [''a''] steps time_s"

text \<open>The same configuration with the optional sections \<open>deps\<close> and \<open>metadata\<close> filled in.\<close>

definition example_deps :: GraphDeps where
  "example_deps =
     \<lparr>models = [\<lparr>model_key = ''gpt'', model_provider = None, model_version = None\<rparr>],
      tools = [''search''],
      prompts = [],
      components = [\<lparr>component_key = ''react'', component_version = ''*''\<rparr>]\<rparr>"

definition example_metadata :: GraphMetadata where
  "example_metadata =
     \<lparr>display_name = Some ''Ordering'', metadata_description = None, tags = [''t''],
      agent_version = None\<rparr>"

definition ordering_test_deps :: GraphConfig where
  "ordering_test_deps = ordering_test\<lparr>deps := Some example_deps, metadata := Some example_metadata\<rparr>"

definition ordering_test_deps_canonical :: GraphConfig where
  "ordering_test_deps_canonical =
     ordering_test_canonical\<lparr>deps := Some example_deps, metadata := Some example_metadata\<rparr>"

text \<open>
  A legacy ReAct configuration whose \<open>entry_point\<close> names no node, as in
  \<open>test_invalid_entrypoint_falls_back_to_start_edge_target\<close>.
\<close>

definition react_missing_entry :: LegacyGraphConfig where
  "react_missing_entry =
     \<lparr>legacy_nodes = [\<lparr>legacy_id = ''agent''\<rparr>, \<lparr>legacy_id = ''tools''\<rparr>],
      legacy_edges =
        [\<lparr>legacy_from_node = ''START'', legacy_to_node = ''agent''\<rparr>,
         \<lparr>legacy_from_node = ''agent'', legacy_to_node = ''tools''\<rparr>,
         \<lparr>legacy_from_node = ''tools'', legacy_to_node = ''agent''\<rparr>,
         \<lparr>legacy_from_node = ''agent'', legacy_to_node = ''END''\<rparr>],
      entry_point = Some ''missing''\<rparr>"

text \<open>A registry that holds one component, of version 2.1.0.\<close>

definition react_component :: ExecutableComponent where
  "react_component = \<lparr>component_metadata = \<lparr>metadata_key = ''react'', metadata_version = ''2.1.0''\<rparr>\<rparr>"

definition example_registry :: "(string \<times> ExecutableComponent) list" where
  "example_registry = [(''react'', react_component)]"

text \<open>
  Raw configurations of the canonical shape, as in \<open>tests/unit/agents/test_factory.py\<close>: an
  LLM node with a prompt, a component node without overrides, and a second LLM node.
\<close>

definition v3_llm_node :: "string \<Rightarrow> string \<Rightarrow> (string \<times> json) list" where
  "v3_llm_node i p =
     [(''id'', JStr i), (''kind'', JStr ''llm''), (''config'', JDict [(''prompt_template'', JStr p)])]"

definition v3_component_node :: "(string \<times> json) list" where
  "v3_component_node =
     [(''id'', JStr ''planner''), (''kind'', JStr ''component''),
      (''config'', JDict [(''component_ref'',
         JDict [(''key'', JStr ''deep_research:brief''), (''version'', JStr ''*'')])])]"

definition v3_example_nodes :: "string \<Rightarrow> json list" where
  "v3_example_nodes p =
     [JDict (v3_llm_node ''agent'' p), JDict v3_component_node,
      JDict (v3_llm_node ''second'' ''Other'')]"

definition v3_example :: "string \<Rightarrow> (string \<times> json) list" where
  "v3_example p =
     [(''schema_version'', JStr ''3.0''), (''key'', JStr ''test''),
      (''graph'', JDict [(''nodes'', JList (v3_example_nodes p))])]"

definition one_llm_config :: "string \<Rightarrow> (string \<times> json) list" where
  "one_llm_config p =
     [(''schema_version'', JStr ''3.0''), (''key'', JStr ''test''),
      (''graph'', JDict [(''nodes'', JList [JDict (v3_llm_node ''agent'' p)])])]"

section \<open>Graphs: what the searches of the validator are to compute\<close>

text \<open>
  These definitions are not taken from the source: they say, in terms of relations, what a
  cycle and a path are, so that the results of \<open>_has_cycle\<close>,
  \<open>_reachable_from_entrypoints\<close> and \<open>_is_end_reachable\<close> can be compared with them.
  \<open>adjacency_rel\<close> is the edge relation that an adjacency dict stands for, and a graph is
  cyclic when some node reaches itself in one step or more.
\<close>

definition adjacency_rel :: "adjacency \<Rightarrow> (string \<times> string) set" where
  "adjacency_rel adjacency = {(u, v). v \<in> set (dict_get adjacency u [])}"

definition cyclic :: "adjacency \<Rightarrow> bool" where
  "cyclic adjacency \<longleftrightarrow> (\<exists>v. (v, v) \<in> (adjacency_rel adjacency)\<^sup>+)"

text \<open>
  The edge-adjacency graph of a configuration: its edges between two of its node ids.
\<close>

definition graph_rel :: "GraphConfig \<Rightarrow> (string \<times> string) set" where
  "graph_rel config =
     {(from_node e, to_node e) | e.
        e \<in> set (edges (graph config))
        \<and> from_node e \<in> node_id ` set (nodes (graph config))
        \<and> to_node e \<in> node_id ` set (nodes (graph config))}"

definition config_cyclic :: "GraphConfig \<Rightarrow> bool" where
  "config_cyclic config \<longleftrightarrow> (\<exists>v. (v, v) \<in> (graph_rel config)\<^sup>+)"

text \<open>
  \<open>END\<close> can be reached from a set of nodes when some node that they reach along edges
  whose target is not \<open>END\<close> has an edge to \<open>END\<close>.
\<close>

definition step_rel :: "GraphEdgeConfig set \<Rightarrow> (string \<times> string) set" where
  "step_rel es = {(from_node e, to_node e) | e. e \<in> es \<and> to_node e \<noteq> ''END''}"

definition end_reachable :: "string set \<Rightarrow> GraphEdgeConfig set \<Rightarrow> bool" where
  "end_reachable S es \<longleftrightarrow>
     (\<exists>u \<in> (step_rel es)\<^sup>* `` S. \<exists>e \<in> es. from_node e = u \<and> to_node e = ''END'')"

section \<open>Python sets as lists: basic facts\<close>

lemma set_set_add [simp]: "set (set_add x s) = insert x (set s)"
  by (auto simp: set_add_def)

lemma distinct_set_add [simp]: "distinct (set_add x s) = distinct s"
  by (auto simp: set_add_def)

lemma set_fold_set_add [simp]: "set (fold set_add xs acc) = set xs \<union> set acc"
  by (induction xs arbitrary: acc) auto

lemma distinct_fold_set_add [simp]: "distinct (fold set_add xs acc) = distinct acc"
  by (induction xs arbitrary: acc) auto

lemma set_py_set [simp]: "set (py_set xs) = set xs"
  by (simp add: py_set_def)

lemma distinct_py_set [simp]: "distinct (py_set xs)"
  by (simp add: py_set_def)

lemma hd_fold_set_add: "acc \<noteq> [] \<Longrightarrow> hd (fold set_add xs acc) = hd acc"
  by (induction xs arbitrary: acc) (auto simp: set_add_def)

lemma fold_set_add_Nil_iff [simp]: "fold set_add xs acc = [] \<longleftrightarrow> xs = [] \<and> acc = []"
  by (metis Un_empty set_empty set_fold_set_add)

lemma py_set_Nil_iff [simp]: "py_set xs = [] \<longleftrightarrow> xs = []"
  by (simp add: py_set_def)

lemma hd_py_set: "xs \<noteq> [] \<Longrightarrow> hd (py_set xs) = hd xs"
  by (cases xs) (simp_all add: py_set_def hd_fold_set_add set_add_def)

section \<open>Dicts: basic facts\<close>

lemma map_of_dict_set [simp]: "map_of (dict_set k v d) = (map_of d)(k \<mapsto> v)"
  by (induction d) (auto simp: fun_eq_iff)

lemma dict_get_dict_set [simp]:
  "dict_get (dict_set k v d) k' dflt = (if k' = k then v else dict_get d k' dflt)"
  by (simp add: dict_get_def)

lemma dict_get_JDict_map_of:
  "dict_get d k JNull = JDict c \<Longrightarrow> map_of d k = Some (JDict c)"
  by (auto simp: dict_get_def split: option.splits)

lemma setdefault_present: "map_of d k = Some v \<Longrightarrow> setdefault k dflt d = (d, v)"
  by (simp add: setdefault_def)

lemma setdefault_absent: "map_of d k = None \<Longrightarrow> setdefault k dflt d = (d @ [(k, dflt)], dflt)"
  by (simp add: setdefault_def)

section \<open>The canonicalizer: results\<close>

lemma canonicalize_graph_config_Inr:
  "canonicalize_graph_config dumps config = Inr canonical \<longleftrightarrow>
     (case deps config of None \<Rightarrow> True | Some d \<Rightarrow> GraphDeps_ok d) \<and>
     canonical = config\<lparr>graph := (graph config)
       \<lparr>nodes := sort_key node_id (nodes (graph config)),
        edges := sort_key (edge_sort_key dumps) (edges (graph config)),
        entrypoints := sort (entrypoints (graph config))\<rparr>\<rparr>"
  by (cases "deps config"; cases "metadata config")
     (auto simp: canonicalize_graph_config_def Let_def GraphDeps_revalidate_def
        GraphMetadata_revalidate_def)

lemma sort_key_twice: "sort_key f (sort_key f xs) = sort_key f xs"
  by (simp add: sort_key_id_if_sorted)

lemma canonicalize_graph_config_ok:
  assumes "GraphConfig_ok config"
  shows "\<exists>canonical. canonicalize_graph_config dumps config = Inr canonical"
proof -
  from assms have "case deps config of None \<Rightarrow> True | Some d \<Rightarrow> GraphDeps_ok d"
    by (simp add: GraphConfig_ok_def)
  then show ?thesis
    by (simp add: canonicalize_graph_config_Inr)
qed

text \<open>
  C1. For every configuration that satisfies the schema, canonicalization returns a
  configuration, and canonicalizing that configuration again returns it unchanged: the
  same order of nodes, edges and entrypoints, the same \<open>deps\<close> and \<open>metadata\<close>.
\<close>

theorem canonicalize_idempotent:
  assumes "GraphConfig_ok config"
  shows "\<exists>canonical. canonicalize_graph_config dumps config = Inr canonical
           \<and> canonicalize_graph_config dumps canonical = Inr canonical"
proof -
  let ?c = "config\<lparr>graph := (graph config)
       \<lparr>nodes := sort_key node_id (nodes (graph config)),
        edges := sort_key (edge_sort_key dumps) (edges (graph config)),
        entrypoints := sort (entrypoints (graph config))\<rparr>\<rparr>"
  from assms have d: "case deps config of None \<Rightarrow> True | Some d \<Rightarrow> GraphDeps_ok d"
    by (simp add: GraphConfig_ok_def)
  then have 1: "canonicalize_graph_config dumps config = Inr ?c"
    by (simp add: canonicalize_graph_config_Inr)
  from d have 2: "canonicalize_graph_config dumps ?c = Inr ?c"
    by (simp add: canonicalize_graph_config_Inr sort_key_twice)
  from 1 2 show ?thesis by blast
qed

theorem canonicalize_idempotent_witness:
  "GraphConfig_ok ordering_test_deps \<and>
   (\<exists>canonical. canonicalize_graph_config json_dumps_plain ordering_test_deps = Inr canonical
      \<and> canonicalize_graph_config json_dumps_plain canonical = Inr canonical)"
proof -
  have ok: "GraphConfig_ok ordering_test_deps"
    by code_simp
  from canonicalize_idempotent [OF ok] ok show ?thesis
    by blast
qed

text \<open>
  C5. The canonical edges are the edges sorted, stably, by the key
  \<open>(from_node, -priority, when_type_tag, when_path, when_operator, when_value_json, to_node)\<close>,
  where the tag is \<open>"0"\<close> for an absent guard, \<open>"1"\<close> for a built-in condition (whose
  name is the path component) and \<open>"2"\<close> for a predicate, and the value component of a
  predicate is the sorted-key JSON dump of its value; the canonical nodes are the nodes
  sorted by \<open>id\<close>, and the canonical entrypoints are the entrypoints sorted.
\<close>

theorem canonical_order:
  assumes "canonicalize_graph_config dumps config = Inr canonical"
  shows "edges (graph canonical) = sort_key (edge_sort_key dumps) (edges (graph config))
       \<and> sorted (map (edge_sort_key dumps) (edges (graph canonical)))
       \<and> nodes (graph canonical) = sort_key node_id (nodes (graph config))
       \<and> sorted (map node_id (nodes (graph canonical)))
       \<and> entrypoints (graph canonical) = sort (entrypoints (graph config))
       \<and> sorted (entrypoints (graph canonical))
       \<and> (\<forall>e. edge_sort_key dumps e =
             (from_node e, - priority e,
              (case edge_when e of
                 None \<Rightarrow> (''0'', '''', '''', '''', to_node e)
               | Some (Builtin b) \<Rightarrow> (''1'', BuiltinEdgeCondition_value b, '''', '''', to_node e)
               | Some (Predicate p) \<Rightarrow>
                   (''2'', state_path p, PredicateOperator_value (operator p),
                    dumps (predicate_value p), to_node e))))"
proof -
  have key: "edge_sort_key dumps e =
             (from_node e, - priority e,
              (case edge_when e of
                 None \<Rightarrow> (''0'', '''', '''', '''', to_node e)
               | Some (Builtin b) \<Rightarrow> (''1'', BuiltinEdgeCondition_value b, '''', '''', to_node e)
               | Some (Predicate p) \<Rightarrow>
                   (''2'', state_path p, PredicateOperator_value (operator p),
                    dumps (predicate_value p), to_node e)))" for e
    by (simp add: edge_sort_key_def split: option.splits EdgeWhen.splits)
  from assms have c: "canonical = config\<lparr>graph := (graph config)
       \<lparr>nodes := sort_key node_id (nodes (graph config)),
        edges := sort_key (edge_sort_key dumps) (edges (graph config)),
        entrypoints := sort (entrypoints (graph config))\<rparr>\<rparr>"
    by (simp add: canonicalize_graph_config_Inr)
  show ?thesis
    unfolding c using key by simp
qed

theorem canonical_order_witness:
  "canonicalize_graph_config json_dumps_plain ordering_test = Inr ordering_test_canonical
   \<and> map node_id (nodes (graph ordering_test_canonical)) = [''a_entry'', ''z_entry'']
   \<and> entrypoints (graph ordering_test_canonical) = [''a_entry'', ''z_entry'']
   \<and> map (\<lambda>e. (from_node e, to_node e, priority e)) (edges (graph ordering_test_canonical))
       = [(''a_entry'', ''END'', 10), (''a_entry'', ''z_entry'', 0), (''z_entry'', ''END'', 0)]
   \<and> sorted (map (edge_sort_key json_dumps_plain) (edges (graph ordering_test_canonical)))
   \<and> sorted (map node_id (nodes (graph ordering_test_canonical)))
   \<and> sorted (entrypoints (graph ordering_test_canonical))"
proof -
  have c: "canonicalize_graph_config json_dumps_plain ordering_test = Inr ordering_test_canonical"
    by code_simp
  have v: "map node_id (nodes (graph ordering_test_canonical)) = [''a_entry'', ''z_entry'']
     \<and> entrypoints (graph ordering_test_canonical) = [''a_entry'', ''z_entry'']
     \<and> map (\<lambda>e. (from_node e, to_node e, priority e)) (edges (graph ordering_test_canonical))
         = [(''a_entry'', ''END'', 10), (''a_entry'', ''z_entry'', 0), (''z_entry'', ''END'', 0)]"
    by code_simp
  from canonical_order [OF c] c v show ?thesis
    by blast
qed

text \<open>
  C10. Canonicalization only reorders: the nodes, edges and entrypoints of the result are
  permutations of those of the input; \<open>schema_version\<close>, \<open>key\<close>, \<open>revision\<close>, \<open>state\<close>,
  \<open>limits\<close>, \<open>prompt_config\<close> and \<open>ui\<close> are those of the input; \<open>deps\<close> and \<open>metadata\<close> are
  what their schema round trip returns.
\<close>

theorem canonicalize_only_reorders:
  assumes "canonicalize_graph_config dumps config = Inr canonical"
  shows "mset (nodes (graph canonical)) = mset (nodes (graph config))
       \<and> mset (edges (graph canonical)) = mset (edges (graph config))
       \<and> mset (entrypoints (graph canonical)) = mset (entrypoints (graph config))
       \<and> schema_version canonical = schema_version config
       \<and> key canonical = key config
       \<and> revision canonical = revision config
       \<and> state canonical = state config
       \<and> limits canonical = limits config
       \<and> prompt_config canonical = prompt_config config
       \<and> ui canonical = ui config
       \<and> map_option Inr (deps canonical) = map_option GraphDeps_revalidate (deps config)
       \<and> map_option Inr (metadata canonical)
           = map_option GraphMetadata_revalidate (metadata config)"
proof -
  from assms have c: "canonical = config\<lparr>graph := (graph config)
       \<lparr>nodes := sort_key node_id (nodes (graph config)),
        edges := sort_key (edge_sort_key dumps) (edges (graph config)),
        entrypoints := sort (entrypoints (graph config))\<rparr>\<rparr>"
    and d: "case deps config of None \<Rightarrow> True | Some d \<Rightarrow> GraphDeps_ok d"
    by (simp_all add: canonicalize_graph_config_Inr)
  from d have "map_option Inr (deps config) = map_option GraphDeps_revalidate (deps config)"
    by (cases "deps config") (simp_all add: GraphDeps_revalidate_def)
  moreover have "map_option Inr (metadata config)
      = map_option GraphMetadata_revalidate (metadata config)"
    by (cases "metadata config") (simp_all add: GraphMetadata_revalidate_def)
  ultimately show ?thesis
    unfolding c by simp
qed

theorem canonicalize_only_reorders_witness:
  "canonicalize_graph_config json_dumps_plain ordering_test_deps = Inr ordering_test_deps_canonical
   \<and> mset (nodes (graph ordering_test_deps_canonical)) = mset (nodes (graph ordering_test_deps))
   \<and> mset (edges (graph ordering_test_deps_canonical)) = mset (edges (graph ordering_test_deps))
   \<and> mset (entrypoints (graph ordering_test_deps_canonical))
       = mset (entrypoints (graph ordering_test_deps))
   \<and> key ordering_test_deps_canonical = key ordering_test_deps
   \<and> limits ordering_test_deps_canonical = limits ordering_test_deps
   \<and> map_option Inr (deps ordering_test_deps_canonical)
       = map_option GraphDeps_revalidate (deps ordering_test_deps)"
proof -
  have c: "canonicalize_graph_config json_dumps_plain ordering_test_deps
      = Inr ordering_test_deps_canonical"
    by code_simp
  from canonicalize_only_reorders [OF c] c show ?thesis
    by blast
qed

section \<open>The upgrader: deriving the entrypoint\<close>

lemma start_targets_of_py_set:
  "start_targets_of es node_ids =
     py_set (map legacy_to_node
       (filter (\<lambda>e. legacy_from_node e = ''START'' \<and> legacy_to_node e \<in> set node_ids) es))"
proof -
  have "fold (\<lambda>edge start_targets.
             if legacy_from_node edge = ''START'' \<and> legacy_to_node edge \<in> set node_ids
                \<and> legacy_to_node edge \<notin> set start_targets
             then start_targets @ [legacy_to_node edge] else start_targets) es acc
      = fold set_add (map legacy_to_node
       (filter (\<lambda>e. legacy_from_node e = ''START'' \<and> legacy_to_node e \<in> set node_ids) es)) acc"
    for acc
    by (induction es arbitrary: acc) (auto simp: set_add_def)
  then show ?thesis
    by (simp add: start_targets_of_def py_set_def)
qed

lemma length_distinct_gt1:
  assumes "distinct xs" "xs \<noteq> []"
  shows "1 < length xs \<longleftrightarrow> set xs \<noteq> {hd xs}"
proof (cases xs)
  case Nil
  with assms show ?thesis by simp
next
  case (Cons a as)
  with assms show ?thesis by (cases as) auto
qed

text \<open>
  C6. With node ids that are not empty (the migration strips them and replaces an empty
  one), \<open>_derive_entrypoints\<close> returns, in this order: the \<open>entry_point\<close> field when it
  names an existing node, with no warning; otherwise the target of the first
  \<open>START\<close> edge whose target exists, with the warning
  \<open>MULTIPLE_START_TARGETS_PICK_FIRST\<close> exactly when such edges have several distinct
  targets; otherwise the id of the first node, with the warning
  \<open>MISSING_ENTRYPOINT_FALLBACK\<close>. In the last two cases the warning
  \<open>INVALID_ENTRYPOINT_FALLBACK\<close> comes first when \<open>entry_point\<close> is set and names no
  node.
\<close>

theorem derive_entrypoints_order:
  fixes config_v2 :: LegacyGraphConfig and node_ids :: "string list"
    and ws :: "GraphConfigMigrationWarning list"
  defines "ep \<equiv> or_default (entry_point config_v2) []"
  defines "targets \<equiv> map legacy_to_node
       (filter (\<lambda>e. legacy_from_node e = ''START'' \<and> legacy_to_node e \<in> set node_ids)
          (legacy_edges config_v2))"
  defines "ws1 \<equiv>
     (if ep \<noteq> [] then
        ws @ [\<lparr>warning_code = ''INVALID_ENTRYPOINT_FALLBACK'',
                warning_path = ''entry_point'',
                warning_message = ''entry_point '' @ [CHR 0x27] @ ep @ [CHR 0x27]
                  @ '' does not exist; deriving entrypoint from edges.''\<rparr>]
      else ws)"
  assumes nonempty_ids: "[] \<notin> set node_ids"
  shows "(ep \<in> set node_ids \<longrightarrow> derive_entrypoints config_v2 node_ids ws = Inr ([ep], ws))
       \<and> (ep \<notin> set node_ids \<and> targets \<noteq> [] \<longrightarrow>
            (\<exists>extra. derive_entrypoints config_v2 node_ids ws = Inr ([hd targets], ws1 @ extra)
               \<and> map warning_code extra =
                   (if set targets \<noteq> {hd targets} then [''MULTIPLE_START_TARGETS_PICK_FIRST'']
                    else [])))
       \<and> (ep \<notin> set node_ids \<and> targets = [] \<and> legacy_nodes config_v2 \<noteq> [] \<longrightarrow>
            (\<exists>w. derive_entrypoints config_v2 node_ids ws
                    = Inr ([legacy_id (hd (legacy_nodes config_v2))], ws1 @ [w])
               \<and> warning_code w = ''MISSING_ENTRYPOINT_FALLBACK''))
       \<and> (ep \<notin> set node_ids \<and> targets = [] \<and> legacy_nodes config_v2 = [] \<longrightarrow>
            derive_entrypoints config_v2 node_ids ws = Inl IndexError)"
proof (intro conjI impI)
  assume "ep \<in> set node_ids"
  with nonempty_ids have "ep \<noteq> []" by auto
  with \<open>ep \<in> set node_ids\<close> show "derive_entrypoints config_v2 node_ids ws = Inr ([ep], ws)"
    by (simp add: derive_entrypoints_def ep_def Let_def)
next
  assume a: "ep \<notin> set node_ids \<and> targets \<noteq> []"
  let ?st = "start_targets_of (legacy_edges config_v2) node_ids"
  have st: "?st = py_set targets"
    by (simp add: start_targets_of_py_set targets_def)
  from a have "py_set targets \<noteq> []" by simp
  with st obtain first others where fo: "?st = first # others"
    by (cases "py_set targets") auto
  have first: "first = hd targets"
    using a st fo hd_py_set [of targets] by (metis list.sel(1))
  have many: "1 < length ?st \<longleftrightarrow> set targets \<noteq> {hd targets}"
    using length_distinct_gt1 [of "py_set targets"] a st hd_py_set [of targets] by simp
  show "\<exists>extra. derive_entrypoints config_v2 node_ids ws = Inr ([hd targets], ws1 @ extra)
               \<and> map warning_code extra =
                   (if set targets \<noteq> {hd targets} then [''MULTIPLE_START_TARGETS_PICK_FIRST'']
                    else [])"
  proof (cases "set targets \<noteq> {hd targets}")
    case True
    with many have "1 < length (first # others)" using fo by simp
    with a fo first True show ?thesis
      by (simp add: derive_entrypoints_def Let_def ep_def [symmetric] ws1_def)
  next
    case False
    with many have "\<not> 1 < length (first # others)" using fo by simp
    with a fo first False show ?thesis
      by (simp add: derive_entrypoints_def Let_def ep_def [symmetric] ws1_def)
  qed
next
  assume a: "ep \<notin> set node_ids \<and> targets = [] \<and> legacy_nodes config_v2 \<noteq> []"
  have st: "start_targets_of (legacy_edges config_v2) node_ids = []"
    using a by (simp add: start_targets_of_py_set targets_def [symmetric])
  from a obtain n rest where n: "legacy_nodes config_v2 = n # rest"
    by (cases "legacy_nodes config_v2") auto
  with a st show "\<exists>w. derive_entrypoints config_v2 node_ids ws
                    = Inr ([legacy_id (hd (legacy_nodes config_v2))], ws1 @ [w])
               \<and> warning_code w = ''MISSING_ENTRYPOINT_FALLBACK''"
    by (simp add: derive_entrypoints_def Let_def ep_def [symmetric] ws1_def)
next
  assume a: "ep \<notin> set node_ids \<and> targets = [] \<and> legacy_nodes config_v2 = []"
  have st: "start_targets_of (legacy_edges config_v2) node_ids = []"
    using a by (simp add: start_targets_of_py_set targets_def [symmetric])
  with a show "derive_entrypoints config_v2 node_ids ws = Inl IndexError"
    by (simp add: derive_entrypoints_def Let_def ep_def [symmetric])
qed

theorem derive_entrypoints_order_witness:
  "[] \<notin> set [''agent'', ''tools'']
   \<and> derive_entrypoints react_missing_entry [''agent'', ''tools''] []
       = Inr ([''agent''],
              [\<lparr>warning_code = ''INVALID_ENTRYPOINT_FALLBACK'', warning_path = ''entry_point'',
                warning_message = ''entry_point '' @ [CHR 0x27] @ ''missing'' @ [CHR 0x27]
                  @ '' does not exist; deriving entrypoint from edges.''\<rparr>])"
  using derive_entrypoints_order [of "[''agent'', ''tools'']" react_missing_entry "[]"]
  by (simp add: react_missing_entry_def or_default_def)

section \<open>The component registry: results\<close>

lemma resolve_specifier:
  assumes "map_of components_dict k = Some component"
    and "version_constraint \<noteq> ''*''"
    and "Version pkg (metadata_version (component_metadata component)) = Inr v"
    and "constraint_specifier pkg version_constraint = Inr spec"
  shows "fst (resolve (Some pkg) components_dict k version_constraint)
     = (if contains pkg spec v then Some component else None)"
  using assms by (simp add: resolve_def Let_def)

text \<open>
  C8. For a registered component, \<open>resolve\<close> returns it for the constraint \<open>*\<close>
  whatever its version; for \<open>^X.Y.Z\<close> it tests the component's version against the
  specifier \<open>>=X.Y.Z,<(X+1).0.0\<close>, and for \<open>~X.Y.Z\<close> against \<open>>=X.Y.Z,<X.(Y+1).0\<close>,
  returning the component when the version is in the specifier and \<open>None\<close> when it is
  not; any other constraint is the specifier as written; and when no specifier can be
  built from the constraint, it returns the component and logs one warning.
\<close>

theorem resolve_constraints:
  assumes registered: "map_of components_dict k = Some component"
  shows "resolve lib components_dict k ''*'' = (Some component, [])
       \<and> (Version pkg (metadata_version (component_metadata component)) = Inr v
            \<and> Version pkg base_version = Inr base
            \<and> SpecifierSet pkg (''>='' @ base_version @ '',<''
                                   @ str_nat (major pkg base + 1) @ ''.0.0'') = Inr spec
          \<longrightarrow> fst (resolve (Some pkg) components_dict k (''^'' @ base_version))
                = (if contains pkg spec v then Some component else None))
       \<and> (Version pkg (metadata_version (component_metadata component)) = Inr v
            \<and> Version pkg base_version = Inr base
            \<and> SpecifierSet pkg (''>='' @ base_version @ '',<'' @ str_nat (major pkg base)
                                   @ ''.'' @ str_nat (minor pkg base + 1) @ ''.0'') = Inr spec
          \<longrightarrow> fst (resolve (Some pkg) components_dict k (''~'' @ base_version))
                = (if contains pkg spec v then Some component else None))
       \<and> (version_constraint \<noteq> ''*''
            \<and> constraint_specifier pkg version_constraint = Inl e
          \<longrightarrow> (\<exists>w. resolve (Some pkg) components_dict k version_constraint
                      = (Some component, [Warning w])))
       \<and> (\<not> prefix ''^'' version_constraint \<and> \<not> prefix ''~'' version_constraint
          \<longrightarrow> constraint_specifier pkg version_constraint = SpecifierSet pkg version_constraint)"
proof (intro conjI impI)
  show "resolve lib components_dict k ''*'' = (Some component, [])"
    using registered by (simp add: resolve_def)
next
  assume a: "Version pkg (metadata_version (component_metadata component)) = Inr v
            \<and> Version pkg base_version = Inr base
            \<and> SpecifierSet pkg (''>='' @ base_version @ '',<''
                                   @ str_nat (major pkg base + 1) @ ''.0.0'') = Inr spec"
  then have "constraint_specifier pkg (''^'' @ base_version) = Inr spec"
    by (simp add: constraint_specifier_def Let_def)
  with a registered show "fst (resolve (Some pkg) components_dict k (''^'' @ base_version))
                = (if contains pkg spec v then Some component else None)"
    by (intro resolve_specifier) simp_all
next
  assume a: "Version pkg (metadata_version (component_metadata component)) = Inr v
            \<and> Version pkg base_version = Inr base
            \<and> SpecifierSet pkg (''>='' @ base_version @ '',<'' @ str_nat (major pkg base)
                                   @ ''.'' @ str_nat (minor pkg base + 1) @ ''.0'') = Inr spec"
  then have "constraint_specifier pkg (''~'' @ base_version) = Inr spec"
    by (simp add: constraint_specifier_def Let_def)
  with a registered show "fst (resolve (Some pkg) components_dict k (''~'' @ base_version))
                = (if contains pkg spec v then Some component else None)"
    by (intro resolve_specifier) simp_all
next
  assume "version_constraint \<noteq> ''*'' \<and> constraint_specifier pkg version_constraint = Inl e"
  with registered show "\<exists>w. resolve (Some pkg) components_dict k version_constraint
                      = (Some component, [Warning w])"
    by (simp add: resolve_def Let_def split: sum.splits)
next
  assume "\<not> prefix ''^'' version_constraint \<and> \<not> prefix ''~'' version_constraint"
  then show "constraint_specifier pkg version_constraint = SpecifierSet pkg version_constraint"
    by (simp add: constraint_specifier_def)
qed

theorem resolve_constraints_witness:
  "map_of example_registry ''react'' = Some react_component
   \<and> resolve (Some release_packaging) example_registry ''react'' ''*'' = (Some react_component, [])
   \<and> fst (resolve (Some release_packaging) example_registry ''react'' ''^2.0.0'') = Some react_component
   \<and> fst (resolve (Some release_packaging) example_registry ''react'' ''^1.0.0'') = None
   \<and> fst (resolve (Some release_packaging) example_registry ''react'' ''~2.1.0'') = Some react_component
   \<and> fst (resolve (Some release_packaging) example_registry ''react'' ''~2.0.0'') = None
   \<and> (\<exists>w. resolve (Some release_packaging) example_registry ''react'' ''latest''
            = (Some react_component, [Warning w]))"
proof -
  have reg: "map_of example_registry ''react'' = Some react_component"
    by code_simp
  have v: "Version release_packaging (metadata_version (component_metadata react_component))
      = Inr [2, 1, 0]"
    by code_simp
  have b1: "Version release_packaging ''2.0.0'' = Inr [2, 0, 0]"
    and b2: "Version release_packaging ''1.0.0'' = Inr [1, 0, 0]"
    and b3: "Version release_packaging ''2.1.0'' = Inr [2, 1, 0]"
    by code_simp+
  have s1: "SpecifierSet release_packaging
       (''>='' @ ''2.0.0'' @ '',<'' @ str_nat (major release_packaging [2, 0, 0] + 1) @ ''.0.0'')
      = Inr [(GE, [2, 0, 0]), (LT, [3, 0, 0])]"
    by code_simp
  have s2: "SpecifierSet release_packaging
       (''>='' @ ''1.0.0'' @ '',<'' @ str_nat (major release_packaging [1, 0, 0] + 1) @ ''.0.0'')
      = Inr [(GE, [1, 0, 0]), (LT, [2, 0, 0])]"
    by code_simp
  have s3: "SpecifierSet release_packaging
       (''>='' @ ''2.1.0'' @ '',<'' @ str_nat (major release_packaging [2, 1, 0])
          @ ''.'' @ str_nat (minor release_packaging [2, 1, 0] + 1) @ ''.0'')
      = Inr [(GE, [2, 1, 0]), (LT, [2, 2, 0])]"
    by code_simp
  have s4: "SpecifierSet release_packaging
       (''>='' @ ''2.0.0'' @ '',<'' @ str_nat (major release_packaging [2, 0, 0])
          @ ''.'' @ str_nat (minor release_packaging [2, 0, 0] + 1) @ ''.0'')
      = Inr [(GE, [2, 0, 0]), (LT, [2, 1, 0])]"
    by code_simp
  have c1: "contains release_packaging [(GE, [2, 0, 0]), (LT, [3, 0, 0])] [2, 1, 0]"
    and c2: "\<not> contains release_packaging [(GE, [1, 0, 0]), (LT, [2, 0, 0])] [2, 1, 0]"
    and c3: "contains release_packaging [(GE, [2, 1, 0]), (LT, [2, 2, 0])] [2, 1, 0]"
    and c4: "\<not> contains release_packaging [(GE, [2, 0, 0]), (LT, [2, 1, 0])] [2, 1, 0]"
    by code_simp+
  have u: "''latest'' \<noteq> ''*'' \<and> constraint_specifier release_packaging ''latest''
      = Inl ''Invalid specifier: latest''"
    by code_simp
  note r = resolve_constraints [OF reg, where pkg = release_packaging and v = "[2, 1, 0]"
      and lib = "Some release_packaging" and version_constraint = "''latest''"
      and e = "''Invalid specifier: latest''"]
  from r [where base_version = "''2.0.0''" and base = "[2, 0, 0]"
        and spec = "[(GE, [2, 0, 0]), (LT, [3, 0, 0])]"]
  have star: "resolve (Some release_packaging) example_registry ''react'' ''*''
      = (Some react_component, [])"
    by blast
  from r [where base_version = "''2.0.0''" and base = "[2, 0, 0]"
        and spec = "[(GE, [2, 0, 0]), (LT, [3, 0, 0])]"] v b1 s1 c1
  have k1: "fst (resolve (Some release_packaging) example_registry ''react'' ''^2.0.0'')
      = Some react_component"
    by simp
  from r [where base_version = "''1.0.0''" and base = "[1, 0, 0]"
        and spec = "[(GE, [1, 0, 0]), (LT, [2, 0, 0])]"] v b2 s2 c2
  have k2: "fst (resolve (Some release_packaging) example_registry ''react'' ''^1.0.0'') = None"
    by simp
  from r [where base_version = "''2.1.0''" and base = "[2, 1, 0]"
        and spec = "[(GE, [2, 1, 0]), (LT, [2, 2, 0])]"] v b3 s3 c3
  have k3: "fst (resolve (Some release_packaging) example_registry ''react'' ''~2.1.0'')
      = Some react_component"
    by simp
  from r [where base_version = "''2.0.0''" and base = "[2, 0, 0]"
        and spec = "[(GE, [2, 0, 0]), (LT, [2, 1, 0])]"] v b1 s4 c4
  have k4: "fst (resolve (Some release_packaging) example_registry ''react'' ''~2.0.0'') = None"
    by simp
  from r [where base_version = "''2.0.0''" and base = "[2, 0, 0]"
        and spec = "[(GE, [2, 0, 0]), (LT, [3, 0, 0])]"] u
  have k5: "\<exists>w. resolve (Some release_packaging) example_registry ''react'' ''latest''
            = (Some react_component, [Warning w])"
    by blast
  from reg star k1 k2 k3 k4 k5 show ?thesis
    by blast
qed

section \<open>Prompt injection: results\<close>

lemma inject_llm_prompt:
  assumes "dict_get d config_key JNull = JDict cfg"
  shows "json_path (JDict (inject_llm config_key sp d)) [config_key, ''prompt_template'']
     = JStr (merge_layered_prompt sp (dict_get cfg ''prompt_template'' JNull))"
  using dict_get_JDict_map_of [OF assms]
  by (simp add: inject_llm_def setdefault_present Let_def)

lemma inject_component_prompt:
  assumes "dict_get d config_key JNull = JDict cfg"
    and "map_of cfg ''config_overrides'' = None \<and> ov = []
         \<or> map_of cfg ''config_overrides'' = Some (JDict ov)"
  shows "json_path (JDict (inject_component config_key sp d))
           [config_key, ''config_overrides'', ''system_prompt'']
     = JStr (merge_layered_prompt sp (dict_get ov ''system_prompt'' JNull))"
  using dict_get_JDict_map_of [OF assms(1)] assms(2)
  by (auto simp: inject_component_def setdefault_present setdefault_absent Let_def dict_get_def)

lemma merge_layered_prompt_both:
  assumes "strip sp \<noteq> []" "strip p \<noteq> []"
  shows "merge_layered_prompt sp (JStr p)
     = strip sp @ [CHR 0x0A, CHR 0x0A] @ ''<NODE_PROMPT>'' @ [CHR 0x0A] @ strip p @ [CHR 0x0A]
         @ ''</NODE_PROMPT>''"
  using assms by (simp add: merge_layered_prompt_def)

lemma merge_layered_prompt_base:
  assumes "strip sp \<noteq> []" "\<forall>p. v = JStr p \<longrightarrow> strip p = []"
  shows "merge_layered_prompt sp v = strip sp"
  using assms by (cases v) (simp_all add: merge_layered_prompt_def)

lemma inject_system_prompt_nodes:
  assumes "dict_get config ''nodes'' JNull = JList ns"
  shows "inject_system_prompt config sp
     = Inr (dict_set ''nodes'' (JList (map (inject_node sp) ns)) config)"
  using assms by (simp add: inject_system_prompt_def)

lemma inject_system_prompt_graph_nodes:
  assumes "\<forall>l. dict_get config ''nodes'' JNull \<noteq> JList l"
    and "dict_get config ''graph'' JNull = JDict g"
    and "dict_get g ''nodes'' JNull = JList ns"
  shows "inject_system_prompt config sp
     = Inr (dict_set ''graph'' (JDict (dict_set ''nodes'' (JList (map (inject_node sp) ns)) g)) config)"
  using assms by (cases "dict_get config ''nodes'' JNull") (simp_all add: inject_system_prompt_def)

text \<open>
  C7, as amended. When the nodes are a list under \<open>nodes\<close>, or else under \<open>graph.nodes\<close>,
  the injection returns a configuration whose node list is the old one with every node
  rewritten, in place and in order. In an LLM node (of either shape) whose configuration
  is a dict, the new \<open>prompt_template\<close> is the layered prompt of the system prompt and the
  old template; in a component node whose configuration is a dict and whose
  \<open>config_overrides\<close> are absent or a dict, the new \<open>config_overrides.system_prompt\<close> is the
  layered prompt of the system prompt and the old override. The layered prompt of a
  system prompt and a node prompt that are both not blank is the stripped system prompt,
  an empty line, and the stripped node prompt between \<open><NODE_PROMPT>\<close> and
  \<open></NODE_PROMPT>\<close> lines; when the node has no prompt or a blank one, it is the stripped
  system prompt alone.
\<close>

theorem inject_system_prompt_layers:
  fixes config :: "(string \<times> json) list" and sp :: string
  defines "lf \<equiv> CHR 0x0A"
  assumes top: "dict_get config ''nodes'' JNull = JList ns
      \<or> (\<forall>l. dict_get config ''nodes'' JNull \<noteq> JList l)
          \<and> dict_get config ''graph'' JNull = JDict g \<and> dict_get g ''nodes'' JNull = JList ns"
  shows "(\<exists>config'. inject_system_prompt config sp = Inr config'
            \<and> (if dict_get config ''nodes'' JNull = JList ns
                then json_path (JDict config') [''nodes'']
                else json_path (JDict config') [''graph'', ''nodes''])
               = JList (map (inject_node sp) ns))
       \<and> (dict_get d ''type'' JNull = JStr ''llm'' \<and> dict_get d ''llm_config'' JNull = JDict cfg
          \<longrightarrow> json_path (inject_node sp (JDict d)) [''llm_config'', ''prompt_template'']
                = JStr (merge_layered_prompt sp (dict_get cfg ''prompt_template'' JNull)))
       \<and> (dict_get d ''type'' JNull \<notin> {JStr ''component'', JStr ''llm''}
            \<and> dict_get d ''kind'' JNull = JStr ''llm'' \<and> dict_get d ''config'' JNull = JDict cfg
          \<longrightarrow> json_path (inject_node sp (JDict d)) [''config'', ''prompt_template'']
                = JStr (merge_layered_prompt sp (dict_get cfg ''prompt_template'' JNull)))
       \<and> (dict_get d ''type'' JNull = JStr ''component''
            \<and> dict_get d ''component_config'' JNull = JDict cfg
            \<and> (map_of cfg ''config_overrides'' = None \<and> ov = []
                \<or> map_of cfg ''config_overrides'' = Some (JDict ov))
          \<longrightarrow> json_path (inject_node sp (JDict d))
                  [''component_config'', ''config_overrides'', ''system_prompt'']
                = JStr (merge_layered_prompt sp (dict_get ov ''system_prompt'' JNull)))
       \<and> (dict_get d ''type'' JNull \<notin> {JStr ''component'', JStr ''llm''}
            \<and> dict_get d ''kind'' JNull = JStr ''component''
            \<and> dict_get d ''config'' JNull = JDict cfg
            \<and> (map_of cfg ''config_overrides'' = None \<and> ov = []
                \<or> map_of cfg ''config_overrides'' = Some (JDict ov))
          \<longrightarrow> json_path (inject_node sp (JDict d)) [''config'', ''config_overrides'', ''system_prompt'']
                = JStr (merge_layered_prompt sp (dict_get ov ''system_prompt'' JNull)))
       \<and> (strip sp \<noteq> [] \<and> strip p \<noteq> []
          \<longrightarrow> merge_layered_prompt sp (JStr p)
                = strip sp @ [lf, lf] @ ''<NODE_PROMPT>'' @ [lf] @ strip p @ [lf] @ ''</NODE_PROMPT>'')
       \<and> (strip sp \<noteq> [] \<and> (\<forall>q. v = JStr q \<longrightarrow> strip q = [])
          \<longrightarrow> merge_layered_prompt sp v = strip sp)"
proof (intro conjI impI)
  show "\<exists>config'. inject_system_prompt config sp = Inr config'
            \<and> (if dict_get config ''nodes'' JNull = JList ns
                then json_path (JDict config') [''nodes'']
                else json_path (JDict config') [''graph'', ''nodes''])
               = JList (map (inject_node sp) ns)"
  proof (cases "dict_get config ''nodes'' JNull = JList ns")
    case True
    then show ?thesis
      by (simp add: inject_system_prompt_nodes)
  next
    case False
    with top have "(\<forall>l. dict_get config ''nodes'' JNull \<noteq> JList l)
          \<and> dict_get config ''graph'' JNull = JDict g \<and> dict_get g ''nodes'' JNull = JList ns"
      by blast
    then show ?thesis
      by (simp add: inject_system_prompt_graph_nodes)
  qed
qed (auto simp: inject_node_def inject_llm_prompt inject_component_prompt
       merge_layered_prompt_both merge_layered_prompt_base lf_def simp del: json_path.simps)

theorem inject_system_prompt_layers_witness:
  "(\<exists>config'. inject_system_prompt (v3_example ''Default'') ''Policy'' = Inr config'
      \<and> json_path (JDict config') [''graph'', ''nodes'']
          = JList (map (inject_node ''Policy'') (v3_example_nodes ''Default'')))
   \<and> json_path (inject_node ''Policy'' (JDict (v3_llm_node ''agent'' ''Default'')))
         [''config'', ''prompt_template'']
       = JStr (''Policy'' @ [CHR 0x0A, CHR 0x0A] @ ''<NODE_PROMPT>'' @ [CHR 0x0A]
                 @ ''Default'' @ [CHR 0x0A] @ ''</NODE_PROMPT>'')
   \<and> json_path (inject_node ''Policy'' (JDict (v3_llm_node ''second'' ''Other'')))
         [''config'', ''prompt_template'']
       = JStr (''Policy'' @ [CHR 0x0A, CHR 0x0A] @ ''<NODE_PROMPT>'' @ [CHR 0x0A]
                 @ ''Other'' @ [CHR 0x0A] @ ''</NODE_PROMPT>'')
   \<and> json_path (inject_node ''Policy'' (JDict v3_component_node))
         [''config'', ''config_overrides'', ''system_prompt'']
       = JStr ''Policy''
   \<and> prefix ''Policy'' (''Policy'' @ [CHR 0x0A, CHR 0x0A] @ ''<NODE_PROMPT>'' @ [CHR 0x0A]
                 @ ''Default'' @ [CHR 0x0A] @ ''</NODE_PROMPT>'')
   \<and> sublist ''<NODE_PROMPT>'' (''Policy'' @ [CHR 0x0A, CHR 0x0A] @ ''<NODE_PROMPT>'' @ [CHR 0x0A]
                 @ ''Default'' @ [CHR 0x0A] @ ''</NODE_PROMPT>'')
   \<and> sublist ''Default'' (''Policy'' @ [CHR 0x0A, CHR 0x0A] @ ''<NODE_PROMPT>'' @ [CHR 0x0A]
                 @ ''Default'' @ [CHR 0x0A] @ ''</NODE_PROMPT>'')"
proof -
  have top: "(\<forall>l. dict_get (v3_example ''Default'') ''nodes'' JNull \<noteq> JList l)
      \<and> dict_get (v3_example ''Default'') ''graph'' JNull
          = JDict [(''nodes'', JList (v3_example_nodes ''Default''))]
      \<and> dict_get [(''nodes'', JList (v3_example_nodes ''Default''))] ''nodes'' JNull
          = JList (v3_example_nodes ''Default'')"
    by (simp add: v3_example_def dict_get_def)
  have s: "strip ''Policy'' = ''Policy''" "strip ''Default'' = ''Default''"
    "strip ''Other'' = ''Other''"
    by code_simp+
  have llm: "dict_get (v3_llm_node i p) ''type'' JNull \<notin> {JStr ''component'', JStr ''llm''}
      \<and> dict_get (v3_llm_node i p) ''kind'' JNull = JStr ''llm''
      \<and> dict_get (v3_llm_node i p) ''config'' JNull = JDict [(''prompt_template'', JStr p)]
      \<and> dict_get [(''prompt_template'', JStr p)] ''prompt_template'' JNull = JStr p" for i p
    by (simp add: v3_llm_node_def dict_get_def)
  have comp: "dict_get v3_component_node ''type'' JNull \<notin> {JStr ''component'', JStr ''llm''}
      \<and> dict_get v3_component_node ''kind'' JNull = JStr ''component''
      \<and> dict_get v3_component_node ''config'' JNull
          = JDict [(''component_ref'',
                    JDict [(''key'', JStr ''deep_research:brief''), (''version'', JStr ''*'')])]
      \<and> map_of [(''component_ref'',
                    JDict [(''key'', JStr ''deep_research:brief''), (''version'', JStr ''*'')])]
            ''config_overrides'' = None"
    by (simp add: v3_component_node_def dict_get_def)
  note t = inject_system_prompt_layers [where config = "v3_example ''Default''"
      and ns = "v3_example_nodes ''Default''"
      and g = "[(''nodes'', JList (v3_example_nodes ''Default''))]" and sp = "''Policy''"
      and v = JNull and ov = "[]"]
  from t [where d = "v3_llm_node ''agent'' ''Default''" and p = "''Default''"
           and cfg = "[(''prompt_template'', JStr ''Default'')]"] top
  have 1: "\<exists>config'. inject_system_prompt (v3_example ''Default'') ''Policy'' = Inr config'
      \<and> json_path (JDict config') [''graph'', ''nodes'']
          = JList (map (inject_node ''Policy'') (v3_example_nodes ''Default''))"
    by (simp del: json_path.simps)
  from t [where d = "v3_llm_node ''agent'' ''Default''" and p = "''Default''"
           and cfg = "[(''prompt_template'', JStr ''Default'')]"]
    top llm [of "''agent''" "''Default''"] s
  have 2: "json_path (inject_node ''Policy'' (JDict (v3_llm_node ''agent'' ''Default'')))
         [''config'', ''prompt_template'']
       = JStr (''Policy'' @ [CHR 0x0A, CHR 0x0A] @ ''<NODE_PROMPT>'' @ [CHR 0x0A]
                 @ ''Default'' @ [CHR 0x0A] @ ''</NODE_PROMPT>'')"
    by (simp del: json_path.simps)
  from t [where d = "v3_llm_node ''second'' ''Other''" and p = "''Other''"
           and cfg = "[(''prompt_template'', JStr ''Other'')]"]
    top llm [of "''second''" "''Other''"] s
  have 3: "json_path (inject_node ''Policy'' (JDict (v3_llm_node ''second'' ''Other'')))
         [''config'', ''prompt_template'']
       = JStr (''Policy'' @ [CHR 0x0A, CHR 0x0A] @ ''<NODE_PROMPT>'' @ [CHR 0x0A]
                 @ ''Other'' @ [CHR 0x0A] @ ''</NODE_PROMPT>'')"
    by (simp del: json_path.simps)
  from t [where d = v3_component_node and p = "''Other''"
           and cfg = "[(''component_ref'',
                    JDict [(''key'', JStr ''deep_research:brief''), (''version'', JStr ''*'')])]"]
    top comp s
  have 4: "json_path (inject_node ''Policy'' (JDict v3_component_node))
         [''config'', ''config_overrides'', ''system_prompt''] = JStr ''Policy''"
    by (simp add: dict_get_def del: json_path.simps)
  have 5: "prefix ''Policy'' (''Policy'' @ [CHR 0x0A, CHR 0x0A] @ ''<NODE_PROMPT>'' @ [CHR 0x0A]
                 @ ''Default'' @ [CHR 0x0A] @ ''</NODE_PROMPT>'')"
    "sublist ''<NODE_PROMPT>'' (''Policy'' @ [CHR 0x0A, CHR 0x0A] @ ''<NODE_PROMPT>'' @ [CHR 0x0A]
                 @ ''Default'' @ [CHR 0x0A] @ ''</NODE_PROMPT>'')"
    "sublist ''Default'' (''Policy'' @ [CHR 0x0A, CHR 0x0A] @ ''<NODE_PROMPT>'' @ [CHR 0x0A]
                 @ ''Default'' @ [CHR 0x0A] @ ''</NODE_PROMPT>'')"
    by code_simp+
  from 1 2 3 4 5 show ?thesis
    by blast
qed

text \<open>
  The claim as stated fails on blank prompts. A node prompt of one space is not empty,
  yet injecting \<open>Policy\<close> gives the template \<open>Policy\<close>, with no \<open><NODE_PROMPT>\<close> block; and
  the system prompt of one space is not empty, yet injecting it leaves the template
  \<open>Default\<close>, which does not start with it.
\<close>

theorem inject_system_prompt_counterexample:
  "inject_system_prompt (one_llm_config '' '') ''Policy'' = Inr (one_llm_config ''Policy'')
   \<and> \<not> sublist ''<NODE_PROMPT>'' ''Policy''
   \<and> inject_system_prompt (one_llm_config ''Default'') '' '' = Inr (one_llm_config ''Default'')
   \<and> \<not> prefix '' '' ''Default''"
  by code_simp


section \<open>The upgrader: a canonical configuration comes back unchanged\<close>

lemma parse_model_dump:
  assumes "GraphConfig_ok config"
  shows "parse_graph_config (model_dump config) = Inr config"
proof (cases config)
  case (fields sv k r g st d l pc md u)
  with assms show ?thesis
    by (cases l)
       (simp add: parse_graph_config_def model_dump_def or_default_def parse_limits_def Let_def)
qed

lemma detect_model_dump:
  assumes "GraphConfig_ok config"
  shows "detect_graph_config_version (model_dump config) = ''3.0''"
  using assms
  by (simp add: detect_graph_config_version_def model_dump_def or_default_def GraphConfig_ok_def)

text \<open>
  C4. For a configuration that satisfies the schema, is its own canonical form and is
  accepted by the validator, \<open>upgrade_graph_config\<close> applied to its serialized form returns a
  result whose configuration is that configuration, whose warnings are empty and whose
  source version starts with \<open>3.\<close>.
\<close>

theorem upgrade_model_dump:
  assumes ok: "GraphConfig_ok config"
    and canonical: "canonicalize_graph_config dumps config = Inr config"
    and valid: "validate_graph_config config = Some []"
  shows "\<exists>r. upgrade_graph_config dumps legacy (model_dump config) = Some (Inr r)
           \<and> result_config r = config \<and> warnings r = [] \<and> prefix ''3.'' (source_version r)"
  using assms
  by (simp add: upgrade_graph_config_def detect_model_dump parse_model_dump
      ensure_valid_graph_config_def Let_def)

theorem upgrade_model_dump_witness:
  "GraphConfig_ok base_config
   \<and> canonicalize_graph_config json_dumps_plain base_config = Inr base_config
   \<and> validate_graph_config base_config = Some []
   \<and> (\<exists>r. upgrade_graph_config json_dumps_plain (\<lambda>v raw. None) (model_dump base_config)
              = Some (Inr r)
         \<and> result_config r = base_config \<and> warnings r = []
         \<and> prefix ''3.'' (source_version r))"
proof -
  have ok: "GraphConfig_ok base_config"
    by code_simp
  have c: "canonicalize_graph_config json_dumps_plain base_config = Inr base_config"
    by code_simp
  have v: "validate_graph_config base_config = Some []"
    by code_simp
  from upgrade_model_dump [OF ok c v, of "\<lambda>v raw. None"] ok c v show ?thesis
    by blast
qed

section \<open>The validator: \<open>_has_cycle\<close> finds the cycles\<close>

text \<open>
  The invariant of the search: no node has two colours; every key is coloured; a black
  node has only black successors and lies on no cycle.
\<close>

definition dfs_inv :: "adjacency \<Rightarrow> colours \<Rightarrow> bool" where
  "dfs_inv adjacency c \<longleftrightarrow>
     distinct (white c)
     \<and> set (white c) \<inter> (set (gray c) \<union> set (black c)) = {}
     \<and> set (gray c) \<inter> set (black c) = {}
     \<and> set (gray c) \<subseteq> set (all_nodes adjacency)
     \<and> fst ` set adjacency \<subseteq> set (white c) \<union> set (gray c) \<union> set (black c)
     \<and> (\<forall>u \<in> set (black c). \<forall>v. (u, v) \<in> adjacency_rel adjacency \<longrightarrow> v \<in> set (black c))
     \<and> (\<forall>u \<in> set (black c). (u, u) \<notin> (adjacency_rel adjacency)\<^sup>+)"

lemma black_closed_rtrancl:
  assumes "dfs_inv adjacency c" "(u, v) \<in> (adjacency_rel adjacency)\<^sup>*" "u \<in> set (black c)"
  shows "v \<in> set (black c)"
  using assms(2,3,1)
  by (induction rule: rtrancl_induct) (auto simp: dfs_inv_def)

lemma dict_get_SomeE:
  assumes "x \<in> set (dict_get d u [])"
  obtains s where "map_of d u = Some s" "x \<in> set s" "(u, s) \<in> set d"
proof (cases "map_of d u")
  case None
  with assms show ?thesis by (simp add: dict_get_def)
next
  case (Some s)
  with assms have "x \<in> set s" by (simp add: dict_get_def)
  with Some that show ?thesis by (blast dest: map_of_SomeD)
qed

lemma dict_get_subset_all_nodes:
  "set (dict_get adjacency u []) \<subseteq> set (all_nodes adjacency)"
proof
  fix x
  assume "x \<in> set (dict_get adjacency u [])"
  then obtain s where "x \<in> set s" "(u, s) \<in> set adjacency"
    by (rule dict_get_SomeE)
  then show "x \<in> set (all_nodes adjacency)"
    by (force simp: all_nodes_def)
qed

lemma adjacency_rel_all_nodes:
  "(u, v) \<in> adjacency_rel adjacency \<Longrightarrow> v \<in> set (all_nodes adjacency)"
  using dict_get_subset_all_nodes by (auto simp: adjacency_rel_def)

lemma adjacency_rel_key:
  assumes "(u, v) \<in> adjacency_rel adjacency"
  shows "u \<in> fst ` set adjacency"
proof -
  from assms have "v \<in> set (dict_get adjacency u [])"
    by (simp add: adjacency_rel_def)
  then obtain s where "(u, s) \<in> set adjacency"
    by (rule dict_get_SomeE)
  then show ?thesis
    by force
qed

text \<open>Finishing a node whose successors are all black.\<close>

lemma dfs_inv_finish:
  assumes inv: "dfs_inv adjacency c"
    and gray: "node \<in> set (gray c)"
    and succs: "set (dict_get adjacency node []) \<subseteq> set (black c)"
  shows "dfs_inv adjacency (c\<lparr>gray := removeAll node (gray c), black := set_add node (black c)\<rparr>)"
proof -
  let ?E = "adjacency_rel adjacency"
  from inv gray have nb: "node \<notin> set (black c)" and nw: "node \<notin> set (white c)"
    by (auto simp: dfs_inv_def)
  have acyc: "(node, node) \<notin> ?E\<^sup>+"
  proof
    assume "(node, node) \<in> ?E\<^sup>+"
    then obtain w where w: "(node, w) \<in> ?E" and r: "(w, node) \<in> ?E\<^sup>*"
      by (meson tranclD)
    from w succs have "w \<in> set (black c)"
      by (auto simp: adjacency_rel_def)
    with inv r have "node \<in> set (black c)"
      by (blast intro: black_closed_rtrancl)
    with nb show False ..
  qed
  have closed: "v \<in> set (black c)" if "(node, v) \<in> ?E" for v
    using that succs by (auto simp: adjacency_rel_def)
  show ?thesis
    using inv nb nw acyc closed
    unfolding dfs_inv_def by (auto 4 3)
qed

lemma dfs_inv_start:
  assumes inv: "dfs_inv adjacency c"
    and fresh: "node \<notin> set (gray c) \<union> set (black c)"
    and node: "node \<in> set (all_nodes adjacency)"
  shows "dfs_inv adjacency (c\<lparr>white := removeAll node (white c), gray := set_add node (gray c)\<rparr>)"
  using assms unfolding dfs_inv_def by (auto simp: distinct_removeAll)


text \<open>
  What holds when \<open>visit\<close> is called on a node and when its loop is at the successors
  \<open>rest\<close>: the node is new (or gray, in the loop), every gray node reaches it, the
  successors already passed are black, and the fuel exceeds the number of nodes that are
  not gray. \<open>dfs_post\<close> is what holds of the result: it is there; \<open>True\<close> comes with a
  cycle; \<open>False\<close> comes with the invariant, the node black and the gray set as before the
  call.
\<close>

definition visit_pre :: "adjacency \<Rightarrow> nat \<Rightarrow> string \<Rightarrow> colours \<Rightarrow> bool" where
  "visit_pre adjacency fuel node c \<longleftrightarrow>
     dfs_inv adjacency c
     \<and> node \<notin> set (gray c) \<union> set (black c)
     \<and> node \<in> set (all_nodes adjacency)
     \<and> (\<forall>g \<in> set (gray c). (g, node) \<in> (adjacency_rel adjacency)\<^sup>+)
     \<and> length (all_nodes adjacency) < card (set (gray c)) + fuel"

definition for_pre :: "adjacency \<Rightarrow> nat \<Rightarrow> string \<Rightarrow> string list \<Rightarrow> colours \<Rightarrow> bool" where
  "for_pre adjacency fuel node rest c \<longleftrightarrow>
     dfs_inv adjacency c
     \<and> node \<in> set (gray c)
     \<and> (\<forall>v \<in> set (dict_get adjacency node []). v \<in> set rest \<or> v \<in> set (black c))
     \<and> set rest \<subseteq> set (dict_get adjacency node [])
     \<and> (\<forall>g \<in> set (gray c) - {node}. (g, node) \<in> (adjacency_rel adjacency)\<^sup>+)
     \<and> length (all_nodes adjacency) < card (set (gray c)) + fuel"

definition dfs_post ::
  "adjacency \<Rightarrow> colours \<Rightarrow> (bool \<times> colours) option \<Rightarrow> string list \<Rightarrow> string \<Rightarrow> bool" where
  "dfs_post adjacency c r g node \<longleftrightarrow>
     (\<exists>b c'. r = Some (b, c')
        \<and> (b \<longrightarrow> cyclic adjacency)
        \<and> (\<not> b \<longrightarrow> dfs_inv adjacency c' \<and> gray c' = g \<and> node \<in> set (black c')
               \<and> set (black c) \<subseteq> set (black c') \<and> set (white c') \<subseteq> set (white c)))"

lemma visit_pre_fuel:
  assumes "visit_pre adjacency fuel node c"
  shows "0 < fuel"
proof -
  from assms have "set (gray c) \<subseteq> set (all_nodes adjacency)"
    and "length (all_nodes adjacency) < card (set (gray c)) + fuel"
    by (simp_all add: visit_pre_def dfs_inv_def)
  moreover have "card (set (gray c)) \<le> card (set (all_nodes adjacency))"
    using calculation(1) by (simp add: card_mono)
  moreover have "card (set (all_nodes adjacency)) \<le> length (all_nodes adjacency)"
    by (rule card_length)
  ultimately show ?thesis by linarith
qed

lemma visit_pre_for_pre:
  assumes "visit_pre adjacency (Suc fuel) node c"
  shows "for_pre adjacency fuel node (dict_get adjacency node [])
           (c\<lparr>white := removeAll node (white c), gray := set_add node (gray c)\<rparr>)"
proof -
  from assms have inv: "dfs_inv adjacency c"
    and fresh: "node \<notin> set (gray c) \<union> set (black c)"
    and node: "node \<in> set (all_nodes adjacency)"
    and path: "\<forall>g \<in> set (gray c). (g, node) \<in> (adjacency_rel adjacency)\<^sup>+"
    and fuel: "length (all_nodes adjacency) < card (set (gray c)) + Suc fuel"
    by (simp_all add: visit_pre_def)
  from fresh have "card (insert node (set (gray c))) = Suc (card (set (gray c)))"
    by simp
  with fuel path dfs_inv_start [OF inv fresh node] show ?thesis
    by (simp add: for_pre_def)
qed

lemma for_pre_visit_pre:
  assumes pre: "for_pre adjacency fuel node (nxt # rest) c"
    and nb: "nxt \<notin> set (black c)" and ng: "nxt \<notin> set (gray c)"
  shows "visit_pre adjacency fuel nxt c"
proof -
  let ?E = "adjacency_rel adjacency"
  from pre have inv: "dfs_inv adjacency c" and gray: "node \<in> set (gray c)"
    and sub: "set (nxt # rest) \<subseteq> set (dict_get adjacency node [])"
    and path: "\<forall>g \<in> set (gray c) - {node}. (g, node) \<in> ?E\<^sup>+"
    and fuel: "length (all_nodes adjacency) < card (set (gray c)) + fuel"
    by (simp_all add: for_pre_def)
  from sub have edge: "(node, nxt) \<in> ?E"
    by (simp add: adjacency_rel_def)
  then have "nxt \<in> set (all_nodes adjacency)"
    by (rule adjacency_rel_all_nodes)
  moreover have "(g, nxt) \<in> ?E\<^sup>+" if "g \<in> set (gray c)" for g
  proof (cases "g = node")
    case True
    with edge show ?thesis by blast
  next
    case False
    with that path have "(g, node) \<in> ?E\<^sup>+" by blast
    with edge show ?thesis by (blast intro: trancl_into_trancl)
  qed
  ultimately show ?thesis
    using inv nb ng fuel by (simp add: visit_pre_def)
qed

lemma for_pre_gray_cyclic:
  assumes pre: "for_pre adjacency fuel node (nxt # rest) c"
    and g: "nxt \<in> set (gray c)"
  shows "cyclic adjacency"
proof -
  let ?E = "adjacency_rel adjacency"
  from pre have sub: "set (nxt # rest) \<subseteq> set (dict_get adjacency node [])"
    and path: "\<forall>g \<in> set (gray c) - {node}. (g, node) \<in> ?E\<^sup>+"
    by (simp_all add: for_pre_def)
  from sub have edge: "(node, nxt) \<in> ?E"
    by (simp add: adjacency_rel_def)
  have "(nxt, nxt) \<in> ?E\<^sup>+"
  proof (cases "nxt = node")
    case True
    with edge show ?thesis by blast
  next
    case False
    with g path have "(nxt, node) \<in> ?E\<^sup>+" by blast
    with edge show ?thesis by (blast intro: trancl_into_trancl)
  qed
  then show ?thesis
    by (auto simp: cyclic_def)
qed

lemma for_pre_rest:
  assumes pre: "for_pre adjacency fuel node (nxt # rest) c"
    and inv: "dfs_inv adjacency c'" and gray: "gray c' = gray c"
    and nxt: "nxt \<in> set (black c')" and mono: "set (black c) \<subseteq> set (black c')"
  shows "for_pre adjacency fuel node rest c'"
  using assms unfolding for_pre_def by auto

lemma removeAll_set_add:
  "node \<notin> set g \<Longrightarrow> removeAll node (set_add node g) = g"
  by (simp add: set_add_def)

lemma visit_post:
  "visit_pre adjacency fuel node c
     \<Longrightarrow> dfs_post adjacency c (visit adjacency fuel node c) (gray c) node"
  and visit_for_post:
  "for_pre adjacency fuel node rest c
     \<Longrightarrow> dfs_post adjacency c (visit_for adjacency fuel node rest c)
           (removeAll node (gray c)) node"
proof (induction adjacency fuel node c and adjacency fuel node rest c
    rule: visit_visit_for.induct)
  case (1 adjacency node c)
  then show ?case
    using visit_pre_fuel by blast
next
  case (2 adjacency fuel node c)
  let ?c = "c\<lparr>white := removeAll node (white c), gray := set_add node (gray c)\<rparr>"
  from "2.prems" have fresh: "node \<notin> set (gray c)"
    by (simp add: visit_pre_def)
  from "2.prems" have "for_pre adjacency fuel node (dict_get adjacency node []) ?c"
    by (rule visit_pre_for_pre)
  then have "dfs_post adjacency ?c (visit_for adjacency fuel node (dict_get adjacency node []) ?c)
      (removeAll node (gray ?c)) node"
    by (rule "2.IH")
  with fresh show ?case
    by (auto simp: dfs_post_def removeAll_set_add)
next
  case (3 adjacency fuel node c)
  then have inv: "dfs_inv adjacency c" and gray: "node \<in> set (gray c)"
    and succs: "set (dict_get adjacency node []) \<subseteq> set (black c)"
    by (auto simp: for_pre_def)
  from dfs_inv_finish [OF inv gray succs] show ?case
    by (auto simp: dfs_post_def)
next
  case (4 adjacency fuel node nxt rest c)
  note pre = "4.prems"
  show ?case
  proof (cases "nxt \<in> set (black c)")
    case True
    with pre have "for_pre adjacency fuel node rest c"
      by (auto simp: for_pre_def)
    with True "4.IH"(1) show ?thesis
      by simp
  next
    case nb: False
    show ?thesis
    proof (cases "nxt \<in> set (gray c)")
      case True
      with pre have "cyclic adjacency"
        by (rule for_pre_gray_cyclic)
      with nb True show ?thesis
        by (auto simp: dfs_post_def)
    next
      case ng: False
      from pre nb ng have "visit_pre adjacency fuel nxt c"
        by (rule for_pre_visit_pre)
      with nb ng have "dfs_post adjacency c (visit adjacency fuel nxt c) (gray c) nxt"
        by (intro "4.IH"(2))
      then obtain b c' where r: "visit adjacency fuel nxt c = Some (b, c')"
        and cyc: "b \<Longrightarrow> cyclic adjacency"
        and ok: "\<not> b \<Longrightarrow> dfs_inv adjacency c' \<and> gray c' = gray c \<and> nxt \<in> set (black c')
               \<and> set (black c) \<subseteq> set (black c') \<and> set (white c') \<subseteq> set (white c)"
        by (auto simp: dfs_post_def)
      show ?thesis
      proof (cases b)
        case True
        with nb ng r cyc show ?thesis
          by (auto simp: dfs_post_def)
      next
        case False
        with ok have c': "dfs_inv adjacency c'" "gray c' = gray c" "nxt \<in> set (black c')"
          "set (black c) \<subseteq> set (black c')" "set (white c') \<subseteq> set (white c)"
          by simp_all
        from pre c'(1-4) have "for_pre adjacency fuel node rest c'"
          by (rule for_pre_rest)
        with nb ng r False
        have "dfs_post adjacency c' (visit_for adjacency fuel node rest c')
            (removeAll node (gray c')) node"
          by (intro "4.IH"(3)) auto
        then obtain b2 c2 where r2: "visit_for adjacency fuel node rest c' = Some (b2, c2)"
          and cyc2: "b2 \<Longrightarrow> cyclic adjacency"
          and ok2: "\<not> b2 \<Longrightarrow> dfs_inv adjacency c2 \<and> gray c2 = removeAll node (gray c')
               \<and> node \<in> set (black c2)
               \<and> set (black c') \<subseteq> set (black c2) \<and> set (white c2) \<subseteq> set (white c')"
          by (auto simp: dfs_post_def)
        from nb ng r False r2
        have eq: "visit_for adjacency fuel node (nxt # rest) c = Some (b2, c2)"
          by simp
        show ?thesis
        proof (cases b2)
          case True
          with cyc2 show ?thesis
            unfolding dfs_post_def eq by auto
        next
          case False
          with ok2 have "dfs_inv adjacency c2" "gray c2 = removeAll node (gray c')"
            "node \<in> set (black c2)"
            "set (black c') \<subseteq> set (black c2)" "set (white c2) \<subseteq> set (white c')"
            by simp_all
          moreover from this(4) c'(4) have "set (black c) \<subseteq> set (black c2)"
            by (rule order_trans [rotated])
          moreover from calculation(5) c'(5) have "set (white c2) \<subseteq> set (white c)"
            by (rule order_trans)
          ultimately show ?thesis
            using False c'(2) unfolding dfs_post_def eq by auto
        qed
      qed
    qed
  qed
qed


lemma length_fold_set_add: "length (fold set_add xs acc) \<le> length xs + length acc"
proof (induction xs arbitrary: acc)
  case Nil
  show ?case by simp
next
  case (Cons x xs)
  have "length (fold set_add xs (set_add x acc)) \<le> length xs + length (set_add x acc)"
    by (rule Cons.IH)
  also have "length (set_add x acc) \<le> Suc (length acc)"
    by (simp add: set_add_def)
  finally show ?case by simp
qed

lemma length_py_set: "length (py_set xs) \<le> length xs"
  using length_fold_set_add [of xs "[]"] by (simp add: py_set_def)

lemma keys_subset_all_nodes: "fst ` set adjacency \<subseteq> set (all_nodes adjacency)"
  by (auto simp: all_nodes_def)

lemma dfs_inv_all_black_acyclic:
  assumes inv: "dfs_inv adjacency c" and w: "white c = []" and g: "gray c = []"
  shows "\<not> cyclic adjacency"
proof
  assume "cyclic adjacency"
  then obtain v where v: "(v, v) \<in> (adjacency_rel adjacency)\<^sup>+"
    by (auto simp: cyclic_def)
  then obtain u where "(v, u) \<in> adjacency_rel adjacency"
    by (meson tranclD)
  then have "v \<in> fst ` set adjacency"
    by (rule adjacency_rel_key)
  with inv w g have "v \<in> set (black c)"
    by (auto simp: dfs_inv_def)
  with inv v show False
    by (auto simp: dfs_inv_def)
qed

lemma has_cycle_while_correct:
  assumes "dfs_inv adjacency c" and "gray c = []" and "length (white c) \<le> rounds"
    and "set (white c) \<subseteq> fst ` set adjacency"
    and "length (all_nodes adjacency) < fuel"
  shows "has_cycle_while adjacency fuel rounds c = Some (cyclic adjacency)"
  using assms
proof (induction rounds arbitrary: c)
  case 0
  then have "white c = []" by simp
  with "0.prems" show ?case
    by (simp add: has_cycle_while.simps dfs_inv_all_black_acyclic)
next
  case (Suc rounds)
  note inv = Suc.prems(1) and g = Suc.prems(2)
  show ?case
  proof (cases "white c")
    case Nil
    with inv g show ?thesis
      by (simp add: has_cycle_while.simps dfs_inv_all_black_acyclic)
  next
    case (Cons node ws)
    then have nw: "node \<in> set (white c)" by simp
    with inv have fresh: "node \<notin> set (gray c) \<union> set (black c)"
      by (auto simp: dfs_inv_def)
    from nw Suc.prems(4) keys_subset_all_nodes have "node \<in> set (all_nodes adjacency)"
      by blast
    with inv fresh g Suc.prems(5) have "visit_pre adjacency fuel node c"
      by (simp add: visit_pre_def)
    then have "dfs_post adjacency c (visit adjacency fuel node c) (gray c) node"
      by (rule visit_post)
    then obtain b c' where r: "visit adjacency fuel node c = Some (b, c')"
      and cyc: "b \<Longrightarrow> cyclic adjacency"
      and ok: "\<not> b \<Longrightarrow> dfs_inv adjacency c' \<and> gray c' = gray c \<and> node \<in> set (black c')
               \<and> set (black c) \<subseteq> set (black c') \<and> set (white c') \<subseteq> set (white c)"
      by (auto simp: dfs_post_def)
    show ?thesis
    proof (cases b)
      case True
      with Cons r cyc show ?thesis
        by (simp add: has_cycle_while.simps [of adjacency fuel "Suc rounds" c])
    next
      case False
      with ok have c': "dfs_inv adjacency c'" "gray c' = gray c" "node \<in> set (black c')"
        "set (white c') \<subseteq> set (white c)"
        by simp_all
      from c'(1,3) have "node \<notin> set (white c')"
        by (auto simp: dfs_inv_def)
      with c'(4) nw have "set (white c') \<subset> set (white c)"
        by blast
      then have "card (set (white c')) < card (set (white c))"
        by (simp add: psubset_card_mono)
      moreover from inv c'(1) have "distinct (white c)" "distinct (white c')"
        by (simp_all add: dfs_inv_def)
      ultimately have "length (white c') < length (white c)"
        by (simp add: distinct_card)
      with Suc.prems(3) have "length (white c') \<le> rounds"
        by simp
      moreover from c'(4) Suc.prems(4) have "set (white c') \<subseteq> fst ` set adjacency"
        by blast
      ultimately have "has_cycle_while adjacency fuel rounds c' = Some (cyclic adjacency)"
        using c'(1,2) g Suc.prems(5) by (intro Suc.IH) simp_all
      with Cons r False show ?thesis
        by (simp add: has_cycle_while.simps [of adjacency fuel "Suc rounds" c])
    qed
  qed
qed

text \<open>
  \<open>_has_cycle\<close> returns, and what it returns is whether the graph of the adjacency dict has a
  cycle. The order in which the sets are iterated plays no part in the statement.
\<close>

lemma has_cycle_iff: "has_cycle adjacency = Some (cyclic adjacency)"
proof -
  let ?c = "\<lparr>white = py_set (map fst adjacency), gray = [], black = []\<rparr>"
  have "dfs_inv adjacency ?c"
    by (simp add: dfs_inv_def)
  then show ?thesis
    unfolding has_cycle_def
    by (rule has_cycle_while_correct) (simp_all add: length_py_set [THEN order_trans])
qed

section \<open>The validator: the adjacency dict of a configuration\<close>

lemma map_fst_adjacency_add [simp]: "map fst (adjacency_add u v adjacency) = map fst adjacency"
  by (induction adjacency) (auto simp: adjacency_add_def)

lemma map_of_adjacency_add:
  "map_of (adjacency_add u v adjacency) k
     = (if k = u then map_option (set_add v) (map_of adjacency k) else map_of adjacency k)"
  by (induction adjacency) (auto simp: adjacency_add_def)

lemma dict_get_adjacency_add:
  "dict_get (adjacency_add u v adjacency) k []
     = (if k = u \<and> k \<in> fst ` set adjacency then set_add v (dict_get adjacency k [])
        else dict_get adjacency k [])"
proof (cases "map_of adjacency k")
  case None
  then have "k \<notin> fst ` set adjacency"
    by (simp add: map_of_eq_None_iff)
  with None show ?thesis
    by (auto simp: dict_get_def map_of_adjacency_add)
next
  case (Some s)
  then have "k \<in> fst ` set adjacency"
    by (metis domI dom_map_of_conv_image_fst)
  with Some show ?thesis
    by (auto simp: dict_get_def map_of_adjacency_add)
qed

lemma adjacency_rel_adjacency_add:
  assumes "u \<in> fst ` set adjacency"
  shows "adjacency_rel (adjacency_add u v adjacency) = insert (u, v) (adjacency_rel adjacency)"
proof -
  have "set (dict_get (adjacency_add u v adjacency) k [])
      = (if k = u then insert v (set (dict_get adjacency k [])) else set (dict_get adjacency k []))"
    for k
    using assms by (simp add: dict_get_adjacency_add)
  then show ?thesis
    by (auto simp: adjacency_rel_def split: if_splits)
qed

lemma dict_get_no_successors [simp]:
  "dict_get (map (\<lambda>node_id. (node_id, [])) node_ids) k [] = []"
  by (induction node_ids) (simp_all add: dict_get_def)

lemma build_adjacency_fold:
  fixes node_ids :: "string list"
  defines "step \<equiv> (\<lambda>edge adjacency.
             if from_node edge \<in> set node_ids \<and> to_node edge \<in> set node_ids
             then adjacency_add (from_node edge) (to_node edge) adjacency
             else adjacency)"
  assumes "map fst adjacency = node_ids"
  shows "map fst (fold step es adjacency) = node_ids
       \<and> adjacency_rel (fold step es adjacency)
         = adjacency_rel adjacency
           \<union> {(from_node e, to_node e) | e.
                e \<in> set es \<and> from_node e \<in> set node_ids \<and> to_node e \<in> set node_ids}"
  using assms(2)
proof (induction es arbitrary: adjacency)
  case Nil
  then show ?case by simp
next
  case (Cons e es)
  from Cons.prems have keys: "map fst (step e adjacency) = node_ids"
    by (simp add: step_def)
  from Cons.prems have "fst ` set adjacency = set node_ids"
    by (metis set_map)
  then have rel: "adjacency_rel (step e adjacency)
      = adjacency_rel adjacency
        \<union> (if from_node e \<in> set node_ids \<and> to_node e \<in> set node_ids
           then {(from_node e, to_node e)} else {})"
    by (simp add: step_def adjacency_rel_adjacency_add)
  from Cons.IH [OF keys] rel show ?case
    by auto
qed

lemma build_adjacency_keys [simp]: "map fst (build_adjacency es node_ids) = node_ids"
  unfolding build_adjacency_def
  using build_adjacency_fold [of "map (\<lambda>node_id. (node_id, [])) node_ids" node_ids es]
  by (simp add: comp_def)

lemma adjacency_rel_build_adjacency:
  "adjacency_rel (build_adjacency es node_ids)
     = {(from_node e, to_node e) | e.
          e \<in> set es \<and> from_node e \<in> set node_ids \<and> to_node e \<in> set node_ids}"
proof -
  have "adjacency_rel (map (\<lambda>node_id. (node_id, [])) node_ids) = {}"
    by (simp add: adjacency_rel_def)
  then show ?thesis
    unfolding build_adjacency_def
    using build_adjacency_fold [of "map (\<lambda>node_id. (node_id, [])) node_ids" node_ids es]
    by (simp add: comp_def)
qed

lemma adjacency_rel_config:
  "adjacency_rel (build_adjacency (edges (graph config))
                    (py_set (map node_id (nodes (graph config)))))
     = graph_rel config"
  by (simp add: adjacency_rel_build_adjacency graph_rel_def)

lemma cyclic_config:
  "cyclic (build_adjacency (edges (graph config)) (py_set (map node_id (nodes (graph config)))))
     = config_cyclic config"
  by (simp add: cyclic_def config_cyclic_def adjacency_rel_config)

section \<open>The validator: cycles and limits\<close>

text \<open>The errors of a configuration with nodes, but for the last block.\<close>

definition structural_errors :: "GraphConfig \<Rightarrow> GraphConfigValidationError list" where
  "structural_errors config =
     (duplicate_errors (map node_id (nodes (graph config)))
      @ entrypoint_count_errors (entrypoints (graph config))
      @ entrypoint_errors (py_set (map node_id (nodes (graph config))))
          (entrypoints (graph config))
      @ concat (map (\<lambda>(idx, edge).
            edge_errors (py_set (map node_id (nodes (graph config))))
              (fold set_add BUILTIN_STATE_PATHS
                 (py_set (map fst (state_schema (state config))))) idx edge)
          (enumerate 0 (edges (graph config))))
      @ concat (map (\<lambda>(source, edge_entries). determinism_errors source edge_entries)
          (edges_by_source_of (edges (graph config))))
      @ unreachable_errors (py_set (map node_id (nodes (graph config))))
          (reachable_from_entrypoints (entrypoints (graph config))
             (build_adjacency (edges (graph config))
                (py_set (map node_id (nodes (graph config))))))
      @ end_unreachable_errors (entrypoints (graph config)) (edges (graph config)))"

lemma validate_graph_config_nodes:
  assumes "nodes (graph config) \<noteq> []"
  shows "validate_graph_config config =
     Some (structural_errors config @ cycle_errors (config_cyclic config) (limits config))"
  using assms
  by (simp add: validate_graph_config_def structural_errors_def Let_def has_cycle_iff
      cyclic_config)

lemma validate_graph_config_returns: "\<exists>errors. validate_graph_config config = Some errors"
proof (cases "nodes (graph config) = []")
  case True
  then show ?thesis by (simp add: validate_graph_config_def)
next
  case False
  then show ?thesis by (simp add: validate_graph_config_nodes)
qed

lemma code_duplicate_errors:
  "e \<in> set (duplicate_errors node_ids) \<Longrightarrow> code e = ''DUPLICATE_NODE_ID''"
  by (auto simp: duplicate_errors_def Let_def split: if_splits)

lemma code_entrypoint_count_errors:
  "e \<in> set (entrypoint_count_errors eps) \<Longrightarrow> code e = ''MULTIPLE_ENTRYPOINTS_UNSUPPORTED''"
  by (auto simp: entrypoint_count_errors_def split: if_splits)

lemma code_entrypoint_errors:
  "e \<in> set (entrypoint_errors node_id_set eps) \<Longrightarrow> code e = ''ENTRYPOINT_NOT_FOUND''"
  by (auto simp: entrypoint_errors_def split: if_splits)

lemma code_edge_errors:
  "e \<in> set (edge_errors node_id_set state_paths idx edge) \<Longrightarrow>
     code e \<in> {''EDGE_FROM_START_FORBIDDEN'', ''EDGE_FROM_END_FORBIDDEN'', ''EDGE_SOURCE_NOT_FOUND'',
                ''EDGE_TO_START_FORBIDDEN'', ''EDGE_TARGET_NOT_FOUND'',
                ''PREDICATE_STATE_PATH_MISSING''}"
  by (auto simp: edge_errors_def Let_def split: if_splits option.splits EdgeWhen.splits)

lemma code_determinism_errors:
  "e \<in> set (determinism_errors source edge_entries) \<Longrightarrow>
     code e \<in> {''MULTIPLE_DEFAULT_EDGES'', ''DUPLICATE_HAS_TOOL_CALLS_EDGE'',
                ''DUPLICATE_NO_TOOL_CALLS_EDGE'', ''MIXED_BUILTIN_AND_CUSTOM_ROUTING''}"
  unfolding determinism_errors_def Let_def by (auto split: if_splits)

lemma code_unreachable_errors:
  "e \<in> set (unreachable_errors node_id_set reachable) \<Longrightarrow> code e = ''UNREACHABLE_NODE''"
  by (auto simp: unreachable_errors_def Let_def split: if_splits)

lemma code_end_unreachable_errors:
  "e \<in> set (end_unreachable_errors eps es) \<Longrightarrow> code e = ''END_UNREACHABLE''"
  by (auto simp: end_unreachable_errors_def split: if_splits)

lemma code_cycle_errors:
  "''CYCLE_LIMITS_REQUIRED'' \<in> code ` set (cycle_errors cyc l)
     \<longleftrightarrow> cyc \<and> max_steps l \<le> 0 \<and> max_time_s l \<le> 0"
  by (auto simp: cycle_errors_def)

lemma code_structural_errors:
  assumes "e \<in> set (structural_errors config)"
  shows "code e \<noteq> ''CYCLE_LIMITS_REQUIRED''"
proof -
  from assms consider
      "e \<in> set (duplicate_errors (map node_id (nodes (graph config))))"
    | "e \<in> set (entrypoint_count_errors (entrypoints (graph config)))"
    | "e \<in> set (entrypoint_errors (py_set (map node_id (nodes (graph config))))
          (entrypoints (graph config)))"
    | idx edge where "e \<in> set (edge_errors (py_set (map node_id (nodes (graph config))))
              (fold set_add BUILTIN_STATE_PATHS
                 (py_set (map fst (state_schema (state config))))) idx edge)"
    | source edge_entries where "e \<in> set (determinism_errors source edge_entries)"
    | "e \<in> set (unreachable_errors (py_set (map node_id (nodes (graph config))))
          (reachable_from_entrypoints (entrypoints (graph config))
             (build_adjacency (edges (graph config))
                (py_set (map node_id (nodes (graph config)))))))"
    | "e \<in> set (end_unreachable_errors (entrypoints (graph config)) (edges (graph config)))"
    unfolding structural_errors_def by auto
  then show ?thesis
  proof cases
    case 1
    then show ?thesis by (simp add: code_duplicate_errors)
  next
    case 2
    then show ?thesis by (simp add: code_entrypoint_count_errors)
  next
    case 3
    then show ?thesis by (simp add: code_entrypoint_errors)
  next
    case 4
    from code_edge_errors [OF 4] show ?thesis by auto
  next
    case 5
    from code_determinism_errors [OF 5] show ?thesis by auto
  next
    case 6
    then show ?thesis by (simp add: code_unreachable_errors)
  next
    case 7
    then show ?thesis by (simp add: code_end_unreachable_errors)
  qed
qed

lemma cycle_code_iff:
  assumes "validate_graph_config config = Some errors"
  shows "''CYCLE_LIMITS_REQUIRED'' \<in> code ` set errors
     \<longleftrightarrow> config_cyclic config \<and> max_steps (limits config) \<le> 0 \<and> max_time_s (limits config) \<le> 0"
proof (cases "nodes (graph config) = []")
  case True
  then have "graph_rel config = {}"
    by (simp add: graph_rel_def)
  then have "\<not> config_cyclic config"
    by (simp add: config_cyclic_def)
  with True assms show ?thesis
    by (auto simp: validate_graph_config_def)
next
  case False
  with assms have errors: "errors
      = structural_errors config @ cycle_errors (config_cyclic config) (limits config)"
    by (simp add: validate_graph_config_nodes)
  have "''CYCLE_LIMITS_REQUIRED'' \<notin> code ` set (structural_errors config)"
    using code_structural_errors by force
  then show ?thesis
    unfolding errors using code_cycle_errors [of "config_cyclic config" "limits config"]
    by (simp add: image_Un)
qed


lemma config_cyclic_has_cycle:
  assumes "has_cycle (build_adjacency (edges (graph config))
                        (py_set (map node_id (nodes (graph config))))) = Some True"
  shows "config_cyclic config"
  using assms by (simp add: has_cycle_iff cyclic_config)

text \<open>
  C3, as amended. For every configuration whose edge-adjacency graph has a cycle, the
  validator returns, and \<open>CYCLE_LIMITS_REQUIRED\<close> is among the codes of its errors exactly
  when \<open>max_steps \<le> 0\<close> and \<open>max_time_s \<le> 0\<close>; so a cyclic configuration that the validator
  accepts has \<open>max_steps\<close> or \<open>max_time_s\<close> positive.
\<close>

theorem cycle_limits_required:
  assumes "config_cyclic config"
  shows "\<exists>errors. validate_graph_config config = Some errors
           \<and> (''CYCLE_LIMITS_REQUIRED'' \<in> code ` set errors
                \<longleftrightarrow> max_steps (limits config) \<le> 0 \<and> max_time_s (limits config) \<le> 0)
           \<and> (errors = [] \<longrightarrow> 0 < max_steps (limits config) \<or> 0 < max_time_s (limits config))"
proof -
  obtain errors where errors: "validate_graph_config config = Some errors"
    using validate_graph_config_returns by blast
  from cycle_code_iff [OF errors] assms
  have iff: "''CYCLE_LIMITS_REQUIRED'' \<in> code ` set errors
       \<longleftrightarrow> max_steps (limits config) \<le> 0 \<and> max_time_s (limits config) \<le> 0"
    by simp
  then have "errors = [] \<longrightarrow> 0 < max_steps (limits config) \<or> 0 < max_time_s (limits config)"
    by auto
  with errors iff show ?thesis
    by blast
qed

theorem cycle_limits_required_witness:
  "config_cyclic (loop_config 0 0)
   \<and> (\<exists>errors. validate_graph_config (loop_config 0 0) = Some errors
         \<and> ''CYCLE_LIMITS_REQUIRED'' \<in> code ` set errors)
   \<and> config_cyclic (loop_config 10 300)
   \<and> (\<exists>errors. validate_graph_config (loop_config 10 300) = Some errors
         \<and> ''CYCLE_LIMITS_REQUIRED'' \<notin> code ` set errors)"
proof -
  have c: "config_cyclic (loop_config steps time_s)" for steps time_s
    by (rule config_cyclic_has_cycle) code_simp
  have l: "max_steps (limits (loop_config steps time_s)) = steps
      \<and> max_time_s (limits (loop_config steps time_s)) = time_s" for steps time_s
    by (simp add: loop_config_def config_of_def)
  from cycle_limits_required [OF c [of 0 0]] l [of 0 0]
  have 1: "\<exists>errors. validate_graph_config (loop_config 0 0) = Some errors
         \<and> ''CYCLE_LIMITS_REQUIRED'' \<in> code ` set errors"
    by auto
  from cycle_limits_required [OF c [of 10 300]] l [of 10 300]
  have 2: "\<exists>errors. validate_graph_config (loop_config 10 300) = Some errors
         \<and> ''CYCLE_LIMITS_REQUIRED'' \<notin> code ` set errors"
    by auto
  from c 1 2 show ?thesis
    by blast
qed

text \<open>
  The claim as stated fails where it asks for both limits: the loop with \<open>max_steps = 10\<close>
  and \<open>max_time_s = 0\<close> is cyclic and accepted.
\<close>

theorem cycle_limits_required_counterexample:
  "config_cyclic (loop_config 10 0)
   \<and> validate_graph_config (loop_config 10 0) = Some []
   \<and> \<not> (0 < max_steps (limits (loop_config 10 0)) \<and> 0 < max_time_s (limits (loop_config 10 0)))"
proof -
  have "config_cyclic (loop_config 10 0)"
    by (rule config_cyclic_has_cycle) code_simp
  moreover have "validate_graph_config (loop_config 10 0) = Some []"
    by code_simp
  moreover have "max_time_s (limits (loop_config 10 0)) = 0"
    by (simp add: loop_config_def config_of_def)
  ultimately show ?thesis
    by simp
qed

section \<open>The parser keeps the limits positive\<close>

lemma parse_graph_config_ok:
  assumes "parse_graph_config raw = Inr config"
  shows "GraphConfig_ok config"
  using assms by (auto simp: parse_graph_config_def Let_def split: if_splits)

text \<open>
  C9. Every configuration that \<open>parse_graph_config\<close> returns has \<open>max_steps \<ge> 1\<close> and
  \<open>max_time_s \<ge> 1\<close>, so the validator, which returns on it, never reports
  \<open>CYCLE_LIMITS_REQUIRED\<close>; and a payload that sets \<open>max_steps\<close> or \<open>max_time_s\<close> to zero or
  less is rejected by the parser.
\<close>

theorem parser_limits_positive:
  "(parse_graph_config raw = Inr config \<longrightarrow>
      1 \<le> max_steps (limits config) \<and> 1 \<le> max_time_s (limits config)
      \<and> (\<exists>errors. validate_graph_config config = Some errors
            \<and> ''CYCLE_LIMITS_REQUIRED'' \<notin> code ` set errors))
   \<and> (raw_limits raw = Some l
        \<and> ((\<exists>n. raw_max_steps l = Some n \<and> n \<le> 0) \<or> (\<exists>n. raw_max_time_s l = Some n \<and> n \<le> 0))
      \<longrightarrow> (\<exists>e. parse_graph_config raw = Inl e))"
proof (intro conjI impI)
  assume p: "parse_graph_config raw = Inr config"
  then have "GraphExecutionLimits_ok (limits config)"
    using parse_graph_config_ok by (auto simp: GraphConfig_ok_def)
  then have pos: "1 \<le> max_steps (limits config) \<and> 1 \<le> max_time_s (limits config)"
    by (simp add: GraphExecutionLimits_ok_def)
  obtain errors where errors: "validate_graph_config config = Some errors"
    using validate_graph_config_returns by blast
  from cycle_code_iff [OF errors] pos have "''CYCLE_LIMITS_REQUIRED'' \<notin> code ` set errors"
    by auto
  with errors show "\<exists>errors. validate_graph_config config = Some errors
            \<and> ''CYCLE_LIMITS_REQUIRED'' \<notin> code ` set errors"
    by blast
  from pos show "1 \<le> max_steps (limits config)" and "1 \<le> max_time_s (limits config)"
    by simp_all
next
  assume "raw_limits raw = Some l
        \<and> ((\<exists>n. raw_max_steps l = Some n \<and> n \<le> 0) \<or> (\<exists>n. raw_max_time_s l = Some n \<and> n \<le> 0))"
  then have "\<not> GraphExecutionLimits_ok (parse_limits (raw_limits raw))"
    by (auto simp: parse_limits_def or_default_def GraphExecutionLimits_ok_def)
  then show "\<exists>e. parse_graph_config raw = Inl e"
    by (simp add: parse_graph_config_def Let_def GraphConfig_ok_def)
qed

theorem parser_limits_positive_witness:
  "parse_graph_config (model_dump (loop_config 10 300)) = Inr (loop_config 10 300)
   \<and> (\<exists>errors. validate_graph_config (loop_config 10 300) = Some errors
         \<and> ''CYCLE_LIMITS_REQUIRED'' \<notin> code ` set errors)
   \<and> raw_limits (model_dump (loop_config 0 0))
       = Some \<lparr>raw_max_time_s = Some 0, raw_max_steps = Some 0, raw_max_concurrency = Some 10\<rparr>
   \<and> (\<exists>e. parse_graph_config (model_dump (loop_config 0 0)) = Inl e)"
proof -
  have p: "parse_graph_config (model_dump (loop_config 10 300)) = Inr (loop_config 10 300)"
    by code_simp
  have r: "raw_limits (model_dump (loop_config 0 0))
       = Some \<lparr>raw_max_time_s = Some 0, raw_max_steps = Some 0, raw_max_concurrency = Some 10\<rparr>"
    by code_simp
  from parser_limits_positive [where raw = "model_dump (loop_config 10 300)"
      and config = "loop_config 10 300" and l = "\<lparr>raw_max_time_s = None, raw_max_steps = None, raw_max_concurrency = None\<rparr>"] p
  have 1: "\<exists>errors. validate_graph_config (loop_config 10 300) = Some errors
         \<and> ''CYCLE_LIMITS_REQUIRED'' \<notin> code ` set errors"
    by blast
  from parser_limits_positive [where raw = "model_dump (loop_config 0 0)"
      and l = "\<lparr>raw_max_time_s = Some 0, raw_max_steps = Some 0, raw_max_concurrency = Some 10\<rparr>"
      and config = "loop_config 0 0"] r
  have 2: "\<exists>e. parse_graph_config (model_dump (loop_config 0 0)) = Inl e"
    by simp
  from p 1 r 2 show ?thesis
    by blast
qed

section \<open>The validator: what the two breadth-first searches compute\<close>

lemma adjacency_rel_Image: "adjacency_rel adjacency `` {u} = set (dict_get adjacency u [])"
  by (auto simp: adjacency_rel_def)

lemma closed_rtrancl_Image:
  assumes "\<forall>u \<in> S. \<forall>v. (u, v) \<in> R \<longrightarrow> v \<in> S"
  shows "R\<^sup>* `` S = S"
proof
  show "R\<^sup>* `` S \<subseteq> S"
  proof
    fix v
    assume "v \<in> R\<^sup>* `` S"
    then obtain u where "u \<in> S" "(u, v) \<in> R\<^sup>*" by blast
    from this(2,1) show "v \<in> S"
      by (induction rule: rtrancl_induct) (use assms in blast)+
  qed
  show "S \<subseteq> R\<^sup>* `` S" by blast
qed

lemma rtrancl_Image_idem: "R\<^sup>* `` (R\<^sup>* `` S) = R\<^sup>* `` S"
  by (blast intro: rtrancl_trans)

lemma reachable_while_set:
  assumes "\<forall>u \<in> set visited. \<forall>v. (u, v) \<in> adjacency_rel adjacency
             \<longrightarrow> v \<in> set visited \<union> set queue"
  shows "set (reachable_while adjacency queue visited)
     = (adjacency_rel adjacency)\<^sup>* `` (set visited \<union> set queue)"
  using assms
proof (induction adjacency queue visited rule: reachable_while.induct)
  case (1 adjacency visited)
  then show ?case
    by (simp add: closed_rtrancl_Image)
next
  case (2 adjacency node queue visited)
  let ?E = "adjacency_rel adjacency"
  show ?case
  proof (cases "node \<in> set visited")
    case True
    with "2.prems" have "\<forall>u \<in> set visited. \<forall>v. (u, v) \<in> ?E \<longrightarrow> v \<in> set visited \<union> set queue"
      by auto
    with True "2.IH"(1)
    have "set (reachable_while adjacency queue visited) = ?E\<^sup>* `` (set visited \<union> set queue)"
      by blast
    moreover from True have "set visited \<union> set (node # queue) = set visited \<union> set queue"
      by auto
    ultimately show ?thesis
      using True by simp
  next
    case False
    let ?v = "set_add node visited"
    let ?q = "queue @ filter (\<lambda>nxt. nxt \<notin> set ?v) (dict_get adjacency node [])"
    have succ: "?E `` {node} = set (dict_get adjacency node [])"
      by (rule adjacency_rel_Image)
    have inv: "\<forall>u \<in> set ?v. \<forall>v. (u, v) \<in> ?E \<longrightarrow> v \<in> set ?v \<union> set ?q"
    proof (intro ballI allI impI)
      fix u v
      assume u: "u \<in> set ?v" and e: "(u, v) \<in> ?E"
      show "v \<in> set ?v \<union> set ?q"
      proof (cases "u = node")
        case True
        with e succ have "v \<in> set (dict_get adjacency node [])" by blast
        then show ?thesis by auto
      next
        case False
        with u have "u \<in> set visited" by simp
        with e "2.prems" have "v \<in> set visited \<union> set (node # queue)" by blast
        then show ?thesis by auto
      qed
    qed
    from False "2.IH"(2) inv
    have r: "set (reachable_while adjacency ?q ?v) = ?E\<^sup>* `` (set ?v \<union> set ?q)"
      by blast
    have "?E\<^sup>* `` (set ?v \<union> set ?q) = ?E\<^sup>* `` (set visited \<union> set (node # queue))"
    proof
      have "set ?v \<union> set ?q \<subseteq> ?E\<^sup>* `` (set visited \<union> set (node # queue))"
      proof
        fix x
        assume "x \<in> set ?v \<union> set ?q"
        then consider "x \<in> set visited \<union> set (node # queue)"
          | "x \<in> set (dict_get adjacency node [])"
          by auto
        then show "x \<in> ?E\<^sup>* `` (set visited \<union> set (node # queue))"
        proof cases
          case 1
          then show ?thesis by blast
        next
          case 2
          with succ have "(node, x) \<in> ?E" by blast
          then show ?thesis by auto
        qed
      qed
      then have "?E\<^sup>* `` (set ?v \<union> set ?q)
          \<subseteq> ?E\<^sup>* `` (?E\<^sup>* `` (set visited \<union> set (node # queue)))"
        by (rule Image_mono [OF subset_refl])
      also have "\<dots> = ?E\<^sup>* `` (set visited \<union> set (node # queue))"
        by (rule rtrancl_Image_idem)
      finally show "?E\<^sup>* `` (set ?v \<union> set ?q) \<subseteq> ?E\<^sup>* `` (set visited \<union> set (node # queue))" .
      show "?E\<^sup>* `` (set visited \<union> set (node # queue)) \<subseteq> ?E\<^sup>* `` (set ?v \<union> set ?q)"
        by (rule Image_mono [OF subset_refl]) auto
    qed
    with r False show ?thesis
      by simp
  qed
qed

lemma reachable_from_entrypoints_set:
  "set (reachable_from_entrypoints eps adjacency) = (adjacency_rel adjacency)\<^sup>* `` set eps"
  using reachable_while_set [of "[]" adjacency eps]
  by (simp add: reachable_from_entrypoints_def)


lemma dict_get_setdefault_append:
  "dict_get (setdefault_append k v d) k' []
     = (if k' = k then dict_get d k [] @ [v] else dict_get d k' [])"
  by (induction d) (auto simp: dict_get_def)

lemma map_fst_setdefault_append:
  "map fst (setdefault_append k v d) = set_add k (map fst d)"
  by (induction d) (force simp: set_add_def)+

lemma dict_get_group:
  "dict_get (fold (\<lambda>x d. setdefault_append (kf x) (vf x) d) xs d0) k []
     = dict_get d0 k [] @ map vf (filter (\<lambda>x. kf x = k) xs)"
  by (induction xs arbitrary: d0) (simp_all add: dict_get_setdefault_append)

lemma map_fst_group:
  "map fst (fold (\<lambda>x d. setdefault_append (kf x) (vf x) d) xs d0)
     = fold set_add (map kf xs) (map fst d0)"
  by (induction xs arbitrary: d0) (simp_all add: map_fst_setdefault_append)

lemma dict_get_outgoing_of:
  "dict_get (outgoing_of es) node [] = filter (\<lambda>e. from_node e = node) es"
  using dict_get_group [of from_node "\<lambda>e. e" es "[]" node]
  by (simp add: outgoing_of_def dict_get_def)

lemma end_scan_eq:
  "end_scan visited es queue
     = (if \<exists>e \<in> set es. to_node e = ''END'' then None
        else Some (queue @ filter (\<lambda>v. v \<notin> set visited) (map to_node es)))"
  by (induction es arbitrary: queue) auto

lemma is_end_reachable_while_iff:
  assumes "\<forall>u \<in> set visited. \<forall>e \<in> set es. from_node e = u \<longrightarrow> to_node e \<noteq> ''END''"
    and "\<forall>u \<in> set visited. \<forall>v. (u, v) \<in> step_rel (set es) \<longrightarrow> v \<in> set visited \<union> set queue"
  shows "is_end_reachable_while (outgoing_of es) queue visited
     \<longleftrightarrow> end_reachable (set visited \<union> set queue) (set es)"
  using assms
proof (induction "outgoing_of es" queue visited rule: is_end_reachable_while.induct)
  case (1 visited)
  then have "(step_rel (set es))\<^sup>* `` set visited = set visited"
    by (intro closed_rtrancl_Image) simp
  with "1.prems"(1) show ?case
    by (auto simp: end_reachable_def)
next
  case (2 node queue visited)
  let ?N = "step_rel (set es)"
  show ?case
  proof (cases "node \<in> set visited")
    case True
    then have eq: "set visited \<union> set (node # queue) = set visited \<union> set queue"
      by auto
    from True "2.prems"(2)
    have "\<forall>u \<in> set visited. \<forall>v. (u, v) \<in> ?N \<longrightarrow> v \<in> set visited \<union> set queue"
      by auto
    with True "2.hyps"(1) "2.prems"(1)
    have "is_end_reachable_while (outgoing_of es) queue visited
        \<longleftrightarrow> end_reachable (set visited \<union> set queue) (set es)"
      by blast
    with True eq show ?thesis
      by simp
  next
    case False
    let ?out = "filter (\<lambda>e. from_node e = node) es"
    let ?v = "set_add node visited"
    show ?thesis
    proof (cases "\<exists>e \<in> set ?out. to_node e = ''END''")
      case True
      then obtain e where "e \<in> set es" "from_node e = node" "to_node e = ''END''"
        by auto
      moreover have "node \<in> ?N\<^sup>* `` (set visited \<union> set (node # queue))"
        by auto
      ultimately have "end_reachable (set visited \<union> set (node # queue)) (set es)"
        unfolding end_reachable_def by blast
      with False True show ?thesis
        by (simp add: dict_get_outgoing_of end_scan_eq)
    next
      case noend: False
      let ?q = "queue @ filter (\<lambda>v. v \<notin> set ?v) (map to_node ?out)"
      have scan: "end_scan ?v (dict_get (outgoing_of es) node []) queue = Some ?q"
        using noend by (simp add: dict_get_outgoing_of end_scan_eq)
      have succ: "?N `` {node} = to_node ` set ?out"
        using noend by (auto simp: step_rel_def)
      have inv1: "\<forall>u \<in> set ?v. \<forall>e \<in> set es. from_node e = u \<longrightarrow> to_node e \<noteq> ''END''"
        using "2.prems"(1) noend by auto
      have inv2: "\<forall>u \<in> set ?v. \<forall>v. (u, v) \<in> ?N \<longrightarrow> v \<in> set ?v \<union> set ?q"
      proof (intro ballI allI impI)
        fix u v
        assume u: "u \<in> set ?v" and e: "(u, v) \<in> ?N"
        show "v \<in> set ?v \<union> set ?q"
        proof (cases "u = node")
          case True
          with e succ have "v \<in> to_node ` set ?out" by blast
          then show ?thesis by auto
        next
          case False
          with u have "u \<in> set visited" by simp
          with e "2.prems"(2) have "v \<in> set visited \<union> set (node # queue)" by blast
          then show ?thesis by auto
        qed
      qed
      from False scan "2.hyps"(2) inv1 inv2
      have r: "is_end_reachable_while (outgoing_of es) ?q ?v
          \<longleftrightarrow> end_reachable (set ?v \<union> set ?q) (set es)"
        by blast
      have "?N\<^sup>* `` (set ?v \<union> set ?q) = ?N\<^sup>* `` (set visited \<union> set (node # queue))"
      proof
        have "set ?v \<union> set ?q \<subseteq> ?N\<^sup>* `` (set visited \<union> set (node # queue))"
        proof
          fix x
          assume "x \<in> set ?v \<union> set ?q"
          then consider "x \<in> set visited \<union> set (node # queue)"
            | "x \<in> to_node ` set ?out"
            by auto
          then show "x \<in> ?N\<^sup>* `` (set visited \<union> set (node # queue))"
          proof cases
            case 1
            then show ?thesis by blast
          next
            case 2
            with succ have "(node, x) \<in> ?N" by blast
            then show ?thesis by auto
          qed
        qed
        then have "?N\<^sup>* `` (set ?v \<union> set ?q)
            \<subseteq> ?N\<^sup>* `` (?N\<^sup>* `` (set visited \<union> set (node # queue)))"
          by (rule Image_mono [OF subset_refl])
        also have "\<dots> = ?N\<^sup>* `` (set visited \<union> set (node # queue))"
          by (rule rtrancl_Image_idem)
        finally show "?N\<^sup>* `` (set ?v \<union> set ?q)
            \<subseteq> ?N\<^sup>* `` (set visited \<union> set (node # queue))" .
        show "?N\<^sup>* `` (set visited \<union> set (node # queue)) \<subseteq> ?N\<^sup>* `` (set ?v \<union> set ?q)"
          by (rule Image_mono [OF subset_refl]) auto
      qed
      then have "end_reachable (set ?v \<union> set ?q) (set es)
          \<longleftrightarrow> end_reachable (set visited \<union> set (node # queue)) (set es)"
        by (simp add: end_reachable_def)
      with r False scan show ?thesis
        by simp
    qed
  qed
qed

lemma is_end_reachable_iff:
  "is_end_reachable eps es \<longleftrightarrow> end_reachable (set eps) (set es)"
  using is_end_reachable_while_iff [of "[]" es eps]
  by (simp add: is_end_reachable_def)

section \<open>The validator: the order of nodes, edges and entrypoints\<close>

text \<open>
  The \<open>path\<close> of an error may hold the position of an edge or of an entrypoint in its list,
  which is not the same in a reordered configuration. \<open>code_message\<close> is an error without
  its path.
\<close>

definition code_message :: "GraphConfigValidationError \<Rightarrow> string \<times> string" where
  "code_message e = (code e, message e)"

lemma mset_concat_map_cong:
  assumes "mset xs = mset ys"
  shows "mset (concat (map f xs)) = mset (concat (map f ys))"
proof -
  have "mset (concat (map f zs)) = sum_mset (image_mset (\<lambda>x. mset (f x)) (mset zs))" for zs
    by (induction zs) simp_all
  with assms show ?thesis by simp
qed

lemma sort_cong_distinct:
  assumes "distinct xs" "distinct ys" "set xs = set ys"
  shows "sort xs = sort ys"
proof -
  from assms have "mset xs = mset ys"
    by (simp add: set_eq_iff_mset_eq_distinct)
  then show ?thesis
    by (intro properties_for_sort) simp_all
qed

lemma concat_enumerate_map:
  assumes "\<And>idx x. map h (g idx x) = k x"
  shows "map h (concat (map (\<lambda>(idx, x). g idx x) (enumerate n xs))) = concat (map k xs)"
  using assms by (induction xs arbitrary: n) (simp_all add: map_concat)

lemma duplicate_errors_cong:
  assumes "mset node_ids = mset node_ids'"
  shows "duplicate_errors node_ids' = duplicate_errors node_ids"
proof -
  let ?d = "\<lambda>xs. py_set (filter (\<lambda>node_id. count_list xs node_id > 1) xs)"
  have c: "count_list node_ids' x = count_list node_ids x" for x
    using assms by (metis count_mset)
  have s: "set node_ids' = set node_ids"
    using assms by (metis set_mset_mset)
  have set_eq: "set (?d node_ids') = set (?d node_ids)"
    by (simp add: c s)
  then have "sort (?d node_ids') = sort (?d node_ids)"
    by (intro sort_cong_distinct) simp_all
  moreover from set_eq have "?d node_ids' = [] \<longleftrightarrow> ?d node_ids = []"
    by (metis set_empty)
  ultimately show ?thesis
    by (simp add: duplicate_errors_def Let_def)
qed

lemma entrypoint_count_errors_cong:
  assumes "mset eps = mset eps'"
  shows "entrypoint_count_errors eps' = entrypoint_count_errors eps"
  using assms by (simp add: entrypoint_count_errors_def) (metis size_mset)

lemma entrypoint_errors_cong:
  assumes "mset eps' = mset eps" "set ids' = set ids"
  shows "mset (map code_message (entrypoint_errors ids' eps'))
       = mset (map code_message (entrypoint_errors ids eps))"
proof -
  let ?k = "\<lambda>entrypoint. if entrypoint \<notin> set ids then
       [(''ENTRYPOINT_NOT_FOUND'', ''Entrypoint '' @ [CHR 0x27] @ entrypoint @ [CHR 0x27]
                                  @ '' does not exist in graph.nodes.'')] else []"
  have k: "map code_message (entrypoint_errors i e) = concat (map ?k e)" if "set i = set ids" for i e
    unfolding entrypoint_errors_def
    by (rule concat_enumerate_map) (simp add: code_message_def that)
  show ?thesis
    unfolding k [OF assms(2)] k [OF refl] using assms(1) by (rule mset_concat_map_cong)
qed

lemma code_message_edge_errors:
  assumes "set ids' = set ids"
  shows "map code_message (edge_errors ids' sps idx e) = map code_message (edge_errors ids sps 0 e)"
  by (simp add: edge_errors_def Let_def code_message_def assms
        if_distrib [of "map code_message"] option.case_distrib [of "map code_message"]
        EdgeWhen.case_distrib [of "map code_message"]
        split del: if_split cong: if_cong option.case_cong EdgeWhen.case_cong)

lemma edge_errors_cong:
  assumes "mset es' = mset es" "set ids' = set ids"
  shows "mset (map code_message (concat (map (\<lambda>(idx, edge). edge_errors ids' sps idx edge)
                                       (enumerate 0 es'))))
       = mset (map code_message (concat (map (\<lambda>(idx, edge). edge_errors ids sps idx edge)
                                       (enumerate 0 es))))"
proof -
  have k: "map code_message (concat (map (\<lambda>(idx, edge). edge_errors i sps idx edge) (enumerate 0 e)))
      = concat (map (\<lambda>e. map code_message (edge_errors ids sps 0 e)) e)"
    if "set i = set ids" for i e
    by (rule concat_enumerate_map) (rule code_message_edge_errors [OF that])
  show ?thesis
    unfolding k [OF assms(2)] k [OF refl] using assms(1) by (rule mset_concat_map_cong)
qed


lemma dict_eq_map_keys:
  assumes "distinct (map fst d)"
  shows "d = map (\<lambda>k. (k, dict_get d k dflt)) (map fst d)"
  using assms
proof (induction d)
  case Nil
  then show ?case by simp
next
  case (Cons kv d)
  obtain k v where kv: "kv = (k, v)" by (cases kv)
  from Cons.prems kv have "k \<notin> fst ` set d" and "distinct (map fst d)"
    by simp_all
  then have "map (\<lambda>k'. (k', dict_get ((k, v) # d) k' dflt)) (map fst d)
      = map (\<lambda>k'. (k', dict_get d k' dflt)) (map fst d)"
    by (intro map_cong) (auto simp: dict_get_def)
  with Cons.IH \<open>distinct (map fst d)\<close> kv show ?case
    by (simp add: dict_get_def)
qed

lemma edges_by_source_of_eq:
  "edges_by_source_of es
     = map (\<lambda>s. (s, filter (\<lambda>(idx, edge). from_node edge = s) (enumerate 0 es)))
           (py_set (map from_node es))"
proof -
  let ?d = "edges_by_source_of es"
  have f: "?d = fold (\<lambda>x d. setdefault_append ((from_node \<circ> snd) x) (id x) d) (enumerate 0 es) []"
    by (simp add: edges_by_source_of_def case_prod_unfold)
  have "map (\<lambda>x. from_node (snd x)) (enumerate 0 es) = map from_node (map snd (enumerate 0 es))"
    by (simp only: map_map comp_def)
  then have keys: "map fst ?d = py_set (map from_node es)"
    unfolding f map_fst_group by (simp add: py_set_def)
  have get: "dict_get ?d s [] = filter (\<lambda>(idx, edge). from_node edge = s) (enumerate 0 es)" for s
    unfolding f dict_get_group by (simp add: dict_get_def case_prod_unfold)
  have "distinct (map fst ?d)"
    by (simp add: keys)
  from dict_eq_map_keys [OF this, of "[]"] show ?thesis
    by (simp add: keys get)
qed

lemma length_filter_entries:
  "length (filter (\<lambda>(idx, edge). P (edge_when edge)) (filter (\<lambda>(idx, edge). from_node edge = s) (enumerate n es)))
     = size (filter_mset (\<lambda>e. P (edge_when e) \<and> from_node e = s) (mset es))"
  by (induction es arbitrary: n) simp_all


lemma length_filter_entries_cong:
  assumes "mset es' = mset es"
  shows "length (filter (\<lambda>(idx, edge). P (edge_when edge))
                   (filter (\<lambda>(idx, edge). from_node edge = s) (enumerate 0 es')))
       = length (filter (\<lambda>(idx, edge). P (edge_when edge))
                   (filter (\<lambda>(idx, edge). from_node edge = s) (enumerate 0 es)))"
  by (simp only: length_filter_entries assms)

lemma code_message_determinism_errors:
  assumes "mset es' = mset es"
  shows "map code_message (determinism_errors s
             (filter (\<lambda>(idx, edge). from_node edge = s) (enumerate 0 es')))
       = map code_message (determinism_errors s
             (filter (\<lambda>(idx, edge). from_node edge = s) (enumerate 0 es)))"
proof -
  let ?E = "\<lambda>es. filter (\<lambda>(idx, edge). from_node edge = s) (enumerate 0 es)"
  note l = length_filter_entries_cong [OF assms, of _ s]
  have a1: "length (filter (\<lambda>(idx, edge). edge_when edge = None) (?E es'))
      = length (filter (\<lambda>(idx, edge). edge_when edge = None) (?E es))"
    using l [of "\<lambda>w. w = None"] .
  have a2: "length (filter (\<lambda>(idx, edge). edge_when edge = Some (Builtin HAS_TOOL_CALLS)) (?E es'))
      = length (filter (\<lambda>(idx, edge). edge_when edge = Some (Builtin HAS_TOOL_CALLS)) (?E es))"
    using l [of "\<lambda>w. w = Some (Builtin HAS_TOOL_CALLS)"] .
  have a3: "length (filter (\<lambda>(idx, edge). edge_when edge = Some (Builtin NO_TOOL_CALLS)) (?E es'))
      = length (filter (\<lambda>(idx, edge). edge_when edge = Some (Builtin NO_TOOL_CALLS)) (?E es))"
    using l [of "\<lambda>w. w = Some (Builtin NO_TOOL_CALLS)"] .
  have a4: "length (filter (\<lambda>(idx, edge). case edge_when edge of
                                Some (Predicate p) \<Rightarrow> True | _ \<Rightarrow> False) (?E es'))
      = length (filter (\<lambda>(idx, edge). case edge_when edge of
                                Some (Predicate p) \<Rightarrow> True | _ \<Rightarrow> False) (?E es))"
    using l [of "\<lambda>w. case w of Some (Predicate p) \<Rightarrow> True | _ \<Rightarrow> False"] .
  have b2: "filter (\<lambda>(idx, edge). edge_when edge = Some (Builtin HAS_TOOL_CALLS)) (?E es') = []
      \<longleftrightarrow> filter (\<lambda>(idx, edge). edge_when edge = Some (Builtin HAS_TOOL_CALLS)) (?E es) = []"
    using a2 by (metis length_0_conv)
  have b3: "filter (\<lambda>(idx, edge). edge_when edge = Some (Builtin NO_TOOL_CALLS)) (?E es') = []
      \<longleftrightarrow> filter (\<lambda>(idx, edge). edge_when edge = Some (Builtin NO_TOOL_CALLS)) (?E es) = []"
    using a3 by (metis length_0_conv)
  have b4: "filter (\<lambda>(idx, edge). case edge_when edge of
                                Some (Predicate p) \<Rightarrow> True | _ \<Rightarrow> False) (?E es') = []
      \<longleftrightarrow> filter (\<lambda>(idx, edge). case edge_when edge of
                                Some (Predicate p) \<Rightarrow> True | _ \<Rightarrow> False) (?E es) = []"
    using a4 by (metis length_0_conv)
  show ?thesis
    unfolding determinism_errors_def Let_def map_append if_distrib [of "map code_message"]
      a1 a2 a3 b2 b3 b4
    by (simp add: code_message_def split del: if_split cong: if_cong)
qed


lemma determinism_errors_cong:
  assumes "mset es' = mset es"
  shows "mset (map code_message (concat (map (\<lambda>(source, edge_entries).
              determinism_errors source edge_entries) (edges_by_source_of es'))))
       = mset (map code_message (concat (map (\<lambda>(source, edge_entries).
              determinism_errors source edge_entries) (edges_by_source_of es))))"
proof -
  let ?k = "\<lambda>s. map code_message (determinism_errors s
             (filter (\<lambda>(idx, edge). from_node edge = s) (enumerate 0 es)))"
  have k: "map code_message (concat (map (\<lambda>(source, edge_entries).
              determinism_errors source edge_entries) (edges_by_source_of e)))
      = concat (map ?k (py_set (map from_node e)))" if "mset e = mset es" for e
    by (simp add: edges_by_source_of_eq map_concat comp_def
        code_message_determinism_errors [OF that])
  from assms have "set (map from_node es') = set (map from_node es)"
    by (metis mset_map set_mset_mset)
  then have "mset (py_set (map from_node es')) = mset (py_set (map from_node es))"
    by (simp add: set_eq_iff_mset_eq_distinct [symmetric])
  then show ?thesis
    unfolding k [OF assms] k [OF refl] by (rule mset_concat_map_cong)
qed

lemma unreachable_errors_cong:
  assumes "distinct ids" "distinct ids'" "set ids' = set ids" "set reachable' = set reachable"
  shows "unreachable_errors ids' reachable' = unreachable_errors ids reachable"
proof -
  let ?u = "\<lambda>ids. filter (\<lambda>node_id. node_id \<notin> set reachable) ids"
  from assms have set_eq: "set (?u ids') = set (?u ids)"
    by simp
  with assms have "sort (?u ids') = sort (?u ids)"
    by (intro sort_cong_distinct) simp_all
  moreover from set_eq have "?u ids' = [] \<longleftrightarrow> ?u ids = []"
    by (metis set_empty)
  ultimately show ?thesis
    by (simp add: unreachable_errors_def Let_def assms(4))
qed

lemma validate_graph_config_permutation:
  assumes ns: "mset (nodes (graph config')) = mset (nodes (graph config))"
    and es: "mset (edges (graph config')) = mset (edges (graph config))"
    and eps: "mset (entrypoints (graph config')) = mset (entrypoints (graph config))"
    and st: "state config' = state config"
    and l: "limits config' = limits config"
  shows "\<exists>errors errors'. validate_graph_config config = Some errors
           \<and> validate_graph_config config' = Some errors'
           \<and> mset (map code_message errors') = mset (map code_message errors)"
proof (cases "nodes (graph config) = []")
  case True
  with ns have "nodes (graph config') = []"
    by simp
  with True show ?thesis
    by (simp add: validate_graph_config_def)
next
  case False
  with ns have ne: "nodes (graph config') \<noteq> []"
    by auto
  let ?ids = "\<lambda>c. py_set (map node_id (nodes (graph c)))"
  from ns have set_ns: "set (nodes (graph config')) = set (nodes (graph config))"
    by (rule mset_eq_setD)
  from es have set_es: "set (edges (graph config')) = set (edges (graph config))"
    by (rule mset_eq_setD)
  from eps have set_eps: "set (entrypoints (graph config')) = set (entrypoints (graph config))"
    by (rule mset_eq_setD)
  have ids: "set (?ids config') = set (?ids config)"
    by (simp add: set_ns)
  have rel: "graph_rel config' = graph_rel config"
    by (simp add: graph_rel_def set_ns set_es)
  have 1: "duplicate_errors (map node_id (nodes (graph config')))
      = duplicate_errors (map node_id (nodes (graph config)))"
    by (rule duplicate_errors_cong) (simp add: ns)
  have 2: "entrypoint_count_errors (entrypoints (graph config'))
      = entrypoint_count_errors (entrypoints (graph config))"
    by (rule entrypoint_count_errors_cong) (simp add: eps)
  note 3 = entrypoint_errors_cong [OF eps ids]
  note 4 = edge_errors_cong [OF es ids]
  note 5 = determinism_errors_cong [OF es]
  have 6: "unreachable_errors (?ids config')
       (reachable_from_entrypoints (entrypoints (graph config'))
          (build_adjacency (edges (graph config')) (?ids config')))
      = unreachable_errors (?ids config)
       (reachable_from_entrypoints (entrypoints (graph config))
          (build_adjacency (edges (graph config)) (?ids config)))"
    by (rule unreachable_errors_cong)
      (simp_all add: set_ns reachable_from_entrypoints_set adjacency_rel_config rel set_eps)
  have 7: "end_unreachable_errors (entrypoints (graph config')) (edges (graph config'))
      = end_unreachable_errors (entrypoints (graph config)) (edges (graph config))"
    by (simp add: end_unreachable_errors_def is_end_reachable_iff set_es set_eps)
  have 8: "cycle_errors (config_cyclic config') (limits config')
      = cycle_errors (config_cyclic config) (limits config)"
    by (simp add: config_cyclic_def rel l)
  have "mset (map code_message (structural_errors config'
            @ cycle_errors (config_cyclic config') (limits config')))
      = mset (map code_message (structural_errors config
            @ cycle_errors (config_cyclic config) (limits config)))"
    unfolding structural_errors_def map_append mset_append 1 2 3 4 5 6 7 8 st ..
  with validate_graph_config_nodes [OF False] validate_graph_config_nodes [OF ne]
  show ?thesis
    by blast
qed

text \<open>
  C2 (amended). For every configuration that satisfies the schema, the validator returns a
  list of errors for the configuration and for its canonical form, and the two lists hold
  the same errors up to their order and up to the \<open>path\<close> of each error: the multisets of
  the pairs of \<open>code\<close> and \<open>message\<close> are equal. In particular the canonical form is accepted
  (no error) exactly when the configuration is.
\<close>

theorem validate_canonical_multiset:
  assumes "GraphConfig_ok config"
  shows "\<exists>canonical errors errors'.
           canonicalize_graph_config dumps config = Inr canonical
           \<and> validate_graph_config config = Some errors
           \<and> validate_graph_config canonical = Some errors'
           \<and> mset (map code_message errors') = mset (map code_message errors)
           \<and> (errors' = [] \<longleftrightarrow> errors = [])"
proof -
  from canonicalize_graph_config_ok [OF assms]
  obtain canonical where c: "canonicalize_graph_config dumps config = Inr canonical"
    by blast
  then have eq: "canonical = config\<lparr>graph := (graph config)
       \<lparr>nodes := sort_key node_id (nodes (graph config)),
        edges := sort_key (edge_sort_key dumps) (edges (graph config)),
        entrypoints := sort (entrypoints (graph config))\<rparr>\<rparr>"
    by (simp add: canonicalize_graph_config_Inr)
  have "\<exists>errors errors'. validate_graph_config config = Some errors
           \<and> validate_graph_config canonical = Some errors'
           \<and> mset (map code_message errors') = mset (map code_message errors)"
    by (rule validate_graph_config_permutation) (simp_all add: eq)
  then obtain errors errors' where v: "validate_graph_config config = Some errors"
      "validate_graph_config canonical = Some errors'"
    and m: "mset (map code_message errors') = mset (map code_message errors)"
    by blast
  from m have "length errors' = length errors"
    by (metis length_map size_mset)
  then have "errors' = [] \<longleftrightarrow> errors = []"
    by (metis length_0_conv)
  with c v m show ?thesis
    by blast
qed

theorem validate_canonical_multiset_witness:
  "GraphConfig_ok ordering_test
   \<and> (\<exists>canonical errors errors'.
        canonicalize_graph_config json_dumps_plain ordering_test = Inr canonical
        \<and> validate_graph_config ordering_test = Some errors
        \<and> validate_graph_config canonical = Some errors'
        \<and> mset (map code_message errors') = mset (map code_message errors)
        \<and> (errors' = [] \<longleftrightarrow> errors = []))"
proof -
  have ok: "GraphConfig_ok ordering_test"
    by code_simp
  from validate_canonical_multiset [OF ok, of json_dumps_plain] ok show ?thesis
    by blast
qed

text \<open>
  C2 as stated does not hold. The configuration of the canonicalizer's own test satisfies
  the schema; node \<open>a_entry\<close> has two unconditional edges, the second of which is at
  position 2 of \<open>graph.edges\<close> and at position 1 once the edges are sorted, so the error
  \<open>MULTIPLE_DEFAULT_EDGES\<close> has the path \<open>graph.edges[2].when\<close> for the configuration and
  \<open>graph.edges[1].when\<close> for its canonical form.
\<close>

theorem validate_canonical_counterexample:
  "GraphConfig_ok ordering_test
   \<and> canonicalize_graph_config json_dumps_plain ordering_test = Inr ordering_test_canonical
   \<and> validate_graph_config ordering_test
       = Some [\<lparr>code = ''MULTIPLE_ENTRYPOINTS_UNSUPPORTED'', path = ''graph.entrypoints'',
                 message = ''Current runtime requires exactly one entrypoint.''\<rparr>,
               \<lparr>code = ''MULTIPLE_DEFAULT_EDGES'', path = ''graph.edges[2].when'',
                 message = ''Node '' @ [CHR 0x27] @ ''a_entry'' @ [CHR 0x27]
                           @ '' has more than one unconditional edge.''\<rparr>]
   \<and> validate_graph_config ordering_test_canonical
       = Some [\<lparr>code = ''MULTIPLE_ENTRYPOINTS_UNSUPPORTED'', path = ''graph.entrypoints'',
                 message = ''Current runtime requires exactly one entrypoint.''\<rparr>,
               \<lparr>code = ''MULTIPLE_DEFAULT_EDGES'', path = ''graph.edges[1].when'',
                 message = ''Node '' @ [CHR 0x27] @ ''a_entry'' @ [CHR 0x27]
                           @ '' has more than one unconditional edge.''\<rparr>]
   \<and> validate_graph_config ordering_test_canonical \<noteq> validate_graph_config ordering_test"
  by code_simp

end
